theory Spec2Isabelle
  imports Complex_Main "HOL-Library.AList"
begin


section \<open>JavaScript values\<close>

text \<open>
  The classes validate their arguments at run time against \<^verbatim>\<open>unknown\<close>, so the
  arguments are modelled as run-time values. A number is NaN, an infinity or a finite
  value; finite doubles are embedded in the rationals (every double is a rational, and
  the only operations the code applies to them, comparison, equality and the sign of a
  difference, are exact on doubles). The two zeros \<^verbatim>\<open>+0\<close> and \<^verbatim>\<open>-0\<close> are one value:
  \<^verbatim>\<open><\<close>, \<^verbatim>\<open>==\<close>, \<^verbatim>\<open>===\<close>, truthiness, property keys and \<^verbatim>\<open>Map\<close> keys do not tell them apart.
\<close>

datatype jsnum = NaN | NegInfinity | Fin rat | Infinity

datatype jsval =
    JUndefined
  | JNull
  | JBoolean bool
  | JNumber jsnum
  | JString string
  | JObject

fun typeof :: "jsval \<Rightarrow> string" where
  "typeof JUndefined = ''undefined''"
| "typeof JNull = ''object''"
| "typeof (JBoolean b) = ''boolean''"
| "typeof (JNumber n) = ''number''"
| "typeof (JString s) = ''string''"
| "typeof JObject = ''object''"

definition isNaN :: "jsnum \<Rightarrow> bool" where
  "isNaN n = (n = NaN)"

text \<open>\<^verbatim>\<open>a < b\<close> on numbers: false as soon as one side is NaN.\<close>

fun js_lt :: "jsnum \<Rightarrow> jsnum \<Rightarrow> bool" where
  "js_lt NaN b = False"
| "js_lt a NaN = False"
| "js_lt (Fin a) (Fin b) = (a < b)"
| "js_lt (Fin a) Infinity = True"
| "js_lt (Fin a) NegInfinity = False"
| "js_lt NegInfinity NegInfinity = False"
| "js_lt NegInfinity b = True"
| "js_lt Infinity b = False"

text \<open>\<^verbatim>\<open>a - b\<close> on numbers: \<^verbatim>\<open>Infinity - Infinity\<close> is NaN.\<close>

fun js_sub :: "jsnum \<Rightarrow> jsnum \<Rightarrow> jsnum" where
  "js_sub NaN b = NaN"
| "js_sub a NaN = NaN"
| "js_sub (Fin a) (Fin b) = Fin (a - b)"
| "js_sub (Fin a) Infinity = NegInfinity"
| "js_sub (Fin a) NegInfinity = Infinity"
| "js_sub Infinity Infinity = NaN"
| "js_sub Infinity b = Infinity"
| "js_sub NegInfinity NegInfinity = NaN"
| "js_sub NegInfinity b = NegInfinity"

text \<open>\<^verbatim>\<open>a === b\<close> and \<^verbatim>\<open>a == b\<close> on two numbers: NaN equals nothing.\<close>

definition js_eq :: "jsnum \<Rightarrow> jsnum \<Rightarrow> bool" where
  "js_eq a b = (a = b \<and> a \<noteq> NaN)"

text \<open>\<^verbatim>\<open>if(v)\<close>: the falsy values are undefined, null, false, 0, NaN and the empty string.\<close>

fun truthy :: "jsval \<Rightarrow> bool" where
  "truthy JUndefined = False"
| "truthy JNull = False"
| "truthy (JBoolean b) = b"
| "truthy (JNumber n) = (n \<noteq> Fin 0 \<and> n \<noteq> NaN)"
| "truthy (JString s) = (s \<noteq> [])"
| "truthy JObject = True"


section \<open>PubSubHandler\<close>

datatype PubSubStates = UNSUBSCRIBED | DISCONNECTED | CONNECTED | SUBSCRIBED

fun PubSubStates_value :: "PubSubStates \<Rightarrow> int" where
  "PubSubStates_value UNSUBSCRIBED = -1"
| "PubSubStates_value DISCONNECTED = 0"
| "PubSubStates_value CONNECTED = 1"
| "PubSubStates_value SUBSCRIBED = 2"

datatype PubSubModes = SUB | PUB | DUAL

fun PubSubModes_value :: "PubSubModes \<Rightarrow> int" where
  "PubSubModes_value SUB = 0"
| "PubSubModes_value PUB = 1"
| "PubSubModes_value DUAL = 2"

definition mode_val :: "PubSubModes \<Rightarrow> jsval" where
  "mode_val md = JNumber (Fin (of_int (PubSubModes_value md)))"

text \<open>
  \<^verbatim>\<open>mode in PubSubStates\<close> for a number \<^verbatim>\<open>mode\<close>. A numeric TypeScript enum compiles to an
  object with the member names as keys and, as reverse mapping, the member values as
  keys: \<^verbatim>\<open>"-1"\<close>, \<^verbatim>\<open>"0"\<close>, \<^verbatim>\<open>"1"\<close>, \<^verbatim>\<open>"2"\<close>. The number is turned into its decimal string,
  so the test holds exactly for the numbers that are the value of a member.
\<close>

definition in_PubSubStates :: "jsnum \<Rightarrow> bool" where
  "in_PubSubStates n =
     (n \<in> set (map (\<lambda>s. Fin (of_int (PubSubStates_value s)))
                  [UNSUBSCRIBED, DISCONNECTED, CONNECTED, SUBSCRIBED]))"

text \<open>\<^verbatim>\<open>typeof mode == "number" && mode in PubSubStates\<close>\<close>

definition validateMode :: "jsval \<Rightarrow> bool" where
  "validateMode md =
     (case md of
        JNumber n \<Rightarrow> (if in_PubSubStates n then True else False)
      | _ \<Rightarrow> False)"

text \<open>
  Every error of the handler is a \<^verbatim>\<open>PubSubHandlerError\<close> told apart by its message; a
  rejected hook surfaces the hook's own error.
\<close>

datatype 'e failure = PubSubHandlerError string | HookFailure 'e

record 'c PubSubHandler =
  client :: 'c
  mode :: jsval
  state :: PubSubStates

text \<open>
  The constructor. \<open>direct\<close> is the test \<^verbatim>\<open>this.constructor === PubSubHandler\<close>: true when
  the base class itself is instantiated, false for a subclass.
\<close>

definition new_PubSubHandler :: "bool \<Rightarrow> 'c \<Rightarrow> jsval \<Rightarrow> 'e failure + 'c PubSubHandler" where
  "new_PubSubHandler direct c md =
     (if direct then Inl (PubSubHandlerError ''PubSubHandler is an abstract class'')
      else if \<not> validateMode md then Inl (PubSubHandlerError ''Invalid Mode'')
      else Inr \<lparr>client = c, mode = md, state = DISCONNECTED\<rparr>)"

definition isSubscribed :: "'c PubSubHandler \<Rightarrow> bool" where
  "isSubscribed h = (state h = SUBSCRIBED)"

definition isConnected :: "'c PubSubHandler \<Rightarrow> bool" where
  "isConnected h = (PubSubStates_value (state h) \<ge> PubSubStates_value CONNECTED)"

definition canSubscribe :: "'c PubSubHandler \<Rightarrow> bool" where
  "canSubscribe h = (mode h = mode_val SUB \<or> mode h = mode_val DUAL)"

definition canPublish :: "'c PubSubHandler \<Rightarrow> bool" where
  "canPublish h = (mode h = mode_val PUB \<or> mode h = mode_val DUAL)"

definition connectionCheck :: "'c PubSubHandler \<Rightarrow> 'e failure + unit" where
  "connectionCheck h = (if \<not> isConnected h then Inl (PubSubHandlerError ''Not Connected'') else Inr ())"

definition subModeCheck :: "'c PubSubHandler \<Rightarrow> 'e failure + unit" where
  "subModeCheck h = (if \<not> canSubscribe h then Inl (PubSubHandlerError ''Can Not Subscribe'') else Inr ())"

definition pubModeCheck :: "'c PubSubHandler \<Rightarrow> 'e failure + unit" where
  "pubModeCheck h = (if \<not> canPublish h then Inl (PubSubHandlerError ''Can Not Publish'') else Inr ())"

text \<open>
  The five abstract hooks of a subclass. A hook works on the client only (the state and
  the mode are private fields of the base class), and the client stands for everything
  a hook can see, the transport and the outside world included; the hook returns the
  client as it leaves it and \<open>None\<close> when its promise resolves, \<open>Some e\<close> when it rejects
  with \<open>e\<close>. Each operation runs to completion before the next one starts.
\<close>

record ('c, 'e) hooks =
  hook_connect :: "'c \<Rightarrow> 'e option \<times> 'c"
  hook_disconnect :: "'c \<Rightarrow> 'e option \<times> 'c"
  hook_subscribe :: "string \<Rightarrow> 'c \<Rightarrow> 'e option \<times> 'c"
  hook_unsubscribe :: "string \<Rightarrow> 'c \<Rightarrow> 'e option \<times> 'c"
  hook_publish :: "string \<Rightarrow> string \<Rightarrow> 'c \<Rightarrow> 'e option \<times> 'c"

text \<open>
  \<^verbatim>\<open>await this._hook(...); this.#state = s\<close>: the hook runs on the client; the state is
  assigned only when the hook did not reject.
\<close>

definition await_then :: "'e option \<times> 'c \<Rightarrow> PubSubStates option \<Rightarrow> 'c PubSubHandler \<Rightarrow>
    ('e failure + unit) \<times> 'c PubSubHandler" where
  "await_then r s h =
     (case r of
        (Some e, c) \<Rightarrow> (Inl (HookFailure e), h\<lparr>client := c\<rparr>)
      | (None, c) \<Rightarrow>
          (Inr (), (case s of None \<Rightarrow> h\<lparr>client := c\<rparr> | Some s' \<Rightarrow> h\<lparr>client := c, state := s'\<rparr>)))"

definition connect :: "('c, 'e) hooks \<Rightarrow> 'c PubSubHandler \<Rightarrow> ('e failure + unit) \<times> 'c PubSubHandler" where
  "connect T h =
     (if isConnected h then (Inr (), h)
      else await_then (hook_connect T (client h)) (Some CONNECTED) h)"

definition disconnect :: "('c, 'e) hooks \<Rightarrow> 'c PubSubHandler \<Rightarrow> ('e failure + unit) \<times> 'c PubSubHandler" where
  "disconnect T h =
     (if \<not> isConnected h then (Inr (), h)
      else await_then (hook_disconnect T (client h)) (Some DISCONNECTED) h)"

definition subscribe :: "('c, 'e) hooks \<Rightarrow> string \<Rightarrow> 'c PubSubHandler \<Rightarrow> ('e failure + unit) \<times> 'c PubSubHandler" where
  "subscribe T channel h =
     (case connectionCheck h of
        Inl e \<Rightarrow> (Inl e, h)
      | Inr _ \<Rightarrow>
         (case subModeCheck h of
            Inl e \<Rightarrow> (Inl e, h)
          | Inr _ \<Rightarrow> await_then (hook_subscribe T channel (client h)) (Some SUBSCRIBED) h))"

definition unsubscribe :: "('c, 'e) hooks \<Rightarrow> string \<Rightarrow> 'c PubSubHandler \<Rightarrow> ('e failure + unit) \<times> 'c PubSubHandler" where
  "unsubscribe T channel h =
     (case connectionCheck h of
        Inl e \<Rightarrow> (Inl e, h)
      | Inr _ \<Rightarrow>
         (case subModeCheck h of
            Inl e \<Rightarrow> (Inl e, h)
          | Inr _ \<Rightarrow> await_then (hook_unsubscribe T channel (client h)) (Some DISCONNECTED) h))"

definition publish :: "('c, 'e) hooks \<Rightarrow> string \<Rightarrow> string \<Rightarrow> 'c PubSubHandler \<Rightarrow> ('e failure + unit) \<times> 'c PubSubHandler" where
  "publish T channel message h =
     (case connectionCheck h of
        Inl e \<Rightarrow> (Inl e, h)
      | Inr _ \<Rightarrow>
         (case pubModeCheck h of
            Inl e \<Rightarrow> (Inl e, h)
          | Inr _ \<Rightarrow> await_then (hook_publish T channel message (client h)) None h))"

text \<open>A call of one of the five transition methods, and a run of such calls in order.\<close>

datatype call = Connect | Disconnect | Subscribe string | Unsubscribe string | Publish string string

fun perform :: "('c, 'e) hooks \<Rightarrow> call \<Rightarrow> 'c PubSubHandler \<Rightarrow> ('e failure + unit) \<times> 'c PubSubHandler" where
  "perform T Connect h = connect T h"
| "perform T Disconnect h = disconnect T h"
| "perform T (Subscribe ch) h = subscribe T ch h"
| "perform T (Unsubscribe ch) h = unsubscribe T ch h"
| "perform T (Publish ch msg) h = publish T ch msg h"

fun perform_all :: "('c, 'e) hooks \<Rightarrow> call list \<Rightarrow> 'c PubSubHandler \<Rightarrow> 'c PubSubHandler" where
  "perform_all T [] h = h"
| "perform_all T (c # cs) h = perform_all T cs (snd (perform T c h))"


section \<open>InMemoryCatalog\<close>

text \<open>
  \<^verbatim>\<open>interface Item { id: number }\<close>, and \<^verbatim>\<open>TItem extends Item\<close> as a record scheme: the
  other fields of an item are its extension. The argument of a public operation carries
  an identity that is still unchecked (a run-time value); \<^verbatim>\<open>assertId\<close> narrows it to a
  number, and the stored snapshots carry numbers.
\<close>

record 'i Item =
  item_id :: 'i

type_synonym 'p TItem = "(jsnum, 'p) Item_scheme"
type_synonym 'p TItem_arg = "(jsval, 'p) Item_scheme"

datatype InMemoryCatalogError =
    INVALID_ID jsval
  | INDEX_ERROR jsnum
  | DUPLICATE_INSERT_ERROR jsnum

record 'p InMemoryCatalog =
  items :: "'p TItem list"

text \<open>\<^verbatim>\<open>if(typeof id != "number" || isNaN(id) || id < 1) throw INVALID_ID(id)\<close>\<close>

fun assertId :: "jsval \<Rightarrow> InMemoryCatalogError + jsnum" where
  "assertId (JNumber n) =
     (if isNaN n \<or> js_lt n (Fin 1) then Inl (INVALID_ID (JNumber n)) else Inr n)"
| "assertId v = Inl (INVALID_ID v)"

text \<open>
  \<^verbatim>\<open>#itemIdComparator(a, b) { return a.id - b.id }\<close>, and the same function written
  inline, \<^verbatim>\<open>(a, b) => a.id - b.id\<close>, in \<^verbatim>\<open>insert\<close>.
\<close>

definition itemIdComparator :: "(jsnum, 'a) Item_scheme \<Rightarrow> (jsnum, 'b) Item_scheme \<Rightarrow> jsnum" where
  "itemIdComparator a b = js_sub (item_id a) (item_id b)"

text \<open>
  Modelled from the spec: \<^verbatim>\<open>insertionIndex\<close> of the module \<^verbatim>\<open>./utils\<close>, which is not
  among the sources. The spec has it as the ordered-insertion utility: given a sorted
  sequence, a comparator and a candidate, it returns the index at which the candidate
  belongs to preserve order, by binary search; \<^verbatim>\<open>insert\<close> looks for an equal identity
  at that very index, so the index is the first one whose element is not below the
  candidate.
\<close>

function insertionIndex_from :: "'a list \<Rightarrow> ('a \<Rightarrow> 'b \<Rightarrow> jsnum) \<Rightarrow> 'b \<Rightarrow> nat \<Rightarrow> nat \<Rightarrow> nat" where
  "insertionIndex_from arr comparator v lo hi =
     (if lo < hi then
        (let mid = (lo + hi) div 2 in
         if js_lt (comparator (arr ! mid) v) (Fin 0)
         then insertionIndex_from arr comparator v (mid + 1) hi
         else insertionIndex_from arr comparator v lo mid)
      else lo)"
  by pat_completeness auto
termination
  by (relation "measure (\<lambda>(arr, comparator, v, lo, hi). hi - lo)") auto

declare insertionIndex_from.simps [simp del]

definition insertionIndex :: "'a list \<Rightarrow> ('a \<Rightarrow> 'b \<Rightarrow> jsnum) \<Rightarrow> 'b \<Rightarrow> nat" where
  "insertionIndex arr comparator v = insertionIndex_from arr comparator v 0 (length arr)"

text \<open>
  Modelled from the spec: \<^verbatim>\<open>bSearch\<close> of the module \<^verbatim>\<open>./utils\<close>, which is not among the
  sources. The spec has every lookup as a binary search against the ascending order;
  the callers read its result as a position when it is above \<^verbatim>\<open>-1\<close> and as "absent"
  otherwise.
\<close>

function bSearch_from :: "'a list \<Rightarrow> ('a \<Rightarrow> 'b \<Rightarrow> jsnum) \<Rightarrow> 'b \<Rightarrow> nat \<Rightarrow> nat \<Rightarrow> int" where
  "bSearch_from arr comparator v lo hi =
     (if lo < hi then
        (let mid = (lo + hi) div 2; c = comparator (arr ! mid) v in
         if js_lt c (Fin 0) then bSearch_from arr comparator v (mid + 1) hi
         else if js_lt (Fin 0) c then bSearch_from arr comparator v lo mid
         else int mid)
      else - 1)"
  by pat_completeness auto
termination
  by (relation "measure (\<lambda>(arr, comparator, v, lo, hi). hi - lo)") auto

declare bSearch_from.simps [simp del]

definition bSearch :: "'a list \<Rightarrow> ('a \<Rightarrow> 'b \<Rightarrow> jsnum) \<Rightarrow> 'b \<Rightarrow> int" where
  "bSearch arr comparator v = bSearch_from arr comparator v 0 (length arr)"

text \<open>
  \<^verbatim>\<open>#findIndex(x: Item["id"] | Item)\<close>: a number is wrapped as \<^verbatim>\<open>{ id: x }\<close>; of an item
  only the identity is read by the comparator.
\<close>

definition findIndex :: "jsnum + (jsnum, 'b) Item_scheme \<Rightarrow> 'p InMemoryCatalog \<Rightarrow> int" where
  "findIndex x c =
     (let v = (case x of Inl n \<Rightarrow> \<lparr>item_id = n\<rparr> | Inr it \<Rightarrow> Item.truncate it)
      in bSearch (items c) itemIdComparator v)"

text \<open>\<^verbatim>\<open>arr[pos]\<close>: undefined beyond the end of the array.\<close>

definition at_index :: "'a list \<Rightarrow> nat \<Rightarrow> 'a option" where
  "at_index arr pos = (if pos < length arr then Some (arr ! pos) else None)"

text \<open>\<^verbatim>\<open>arr.splice(pos, 0, x)\<close> and \<^verbatim>\<open>arr.splice(pos, 1)\<close>; a start beyond the end is the end.\<close>

definition splice_in :: "'a list \<Rightarrow> nat \<Rightarrow> 'a \<Rightarrow> 'a list" where
  "splice_in arr pos x = take pos arr @ [x] @ drop pos arr"

definition splice_out :: "'a list \<Rightarrow> nat \<Rightarrow> 'a list" where
  "splice_out arr pos = take pos arr @ drop (pos + 1) arr"

text \<open>
  The argument of \<^verbatim>\<open>insert\<close> and \<^verbatim>\<open>update\<close> once \<^verbatim>\<open>assertId\<close> has narrowed its identity to
  the number \<open>n\<close>.
\<close>

definition narrow :: "jsnum \<Rightarrow> 'p TItem_arg \<Rightarrow> 'p TItem" where
  "narrow n item = \<lparr>item_id = n, \<dots> = Item.more item\<rparr>"

text \<open>
  \<^verbatim>\<open>deepFreeze(structuredClone(item))\<close>: a value of the model is its own independent,
  immutable copy.
\<close>

definition frozenClone :: "'p TItem \<Rightarrow> 'p TItem" where
  "frozenClone item = item"

definition insert_item :: "'p TItem_arg \<Rightarrow> 'p InMemoryCatalog \<Rightarrow>
    (InMemoryCatalogError + unit) \<times> 'p InMemoryCatalog" where
  "insert_item item c =
     (case assertId (item_id item) of
        Inl e \<Rightarrow> (Inl e, c)
      | Inr n \<Rightarrow>
         (let item' = narrow n item;
              fc = frozenClone item';
              pos = insertionIndex (items c) itemIdComparator fc;
              itemAtPos = at_index (items c) pos
          in if (case itemAtPos of None \<Rightarrow> True | Some x \<Rightarrow> \<not> js_eq (item_id x) (item_id item'))
             then (Inr (), c\<lparr>items := splice_in (items c) pos fc\<rparr>)
             else (Inl (DUPLICATE_INSERT_ERROR (item_id item')), c)))"

definition update_item :: "'p TItem_arg \<Rightarrow> 'p InMemoryCatalog \<Rightarrow>
    (InMemoryCatalogError + unit) \<times> 'p InMemoryCatalog" where
  "update_item item c =
     (case assertId (item_id item) of
        Inl e \<Rightarrow> (Inl e, c)
      | Inr n \<Rightarrow>
         (let item' = narrow n item;
              index = findIndex (Inr item') c
          in if index > - 1
             then (let fc = frozenClone item'
                   in (Inr (), c\<lparr>items := (items c)[nat index := fc]\<rparr>))
             else (Inl (INDEX_ERROR (item_id item')), c)))"

definition findById :: "jsval \<Rightarrow> 'p InMemoryCatalog \<Rightarrow> InMemoryCatalogError + 'p TItem option" where
  "findById i c =
     (case assertId i of
        Inl e \<Rightarrow> Inl e
      | Inr n \<Rightarrow>
         (let index = findIndex (Inl n :: jsnum + jsnum Item) c
          in if index > - 1 then Inr (at_index (items c) (nat index)) else Inr None))"

definition fetchAll :: "'p InMemoryCatalog \<Rightarrow> 'p TItem list" where
  "fetchAll c = fold (\<lambda>item copyArray. copyArray @ [item]) (items c) []"

definition remove_item :: "jsval \<Rightarrow> 'p InMemoryCatalog \<Rightarrow>
    (InMemoryCatalogError + unit) \<times> 'p InMemoryCatalog" where
  "remove_item i c =
     (case assertId i of
        Inl e \<Rightarrow> (Inl e, c)
      | Inr n \<Rightarrow>
         (let index = findIndex (Inl n :: jsnum + jsnum Item) c
          in if index > - 1
             then (Inr (), c\<lparr>items := splice_out (items c) (nat index)\<rparr>)
             else (Inr (), c)))"

definition size_items :: "'p InMemoryCatalog \<Rightarrow> nat" where
  "size_items c = length (items c)"

text \<open>
  \<^verbatim>\<open>for(const item of items) this.insert(item)\<close> in the constructor: the first insert that
  throws ends the construction. \<open>insert_each\<close> is a caller that makes the same calls one
  after the other and goes on after a failed one, on the catalog as the call left it.
\<close>

fun insert_all :: "'p TItem_arg list \<Rightarrow> 'p InMemoryCatalog \<Rightarrow> InMemoryCatalogError + 'p InMemoryCatalog" where
  "insert_all [] c = Inr c"
| "insert_all (item # rest) c =
     (case insert_item item c of
        (Inl e, c') \<Rightarrow> Inl e
      | (Inr u, c') \<Rightarrow> insert_all rest c')"

definition new_InMemoryCatalog :: "'p TItem_arg list option \<Rightarrow> InMemoryCatalogError + 'p InMemoryCatalog" where
  "new_InMemoryCatalog its =
     (case its of
        None \<Rightarrow> Inr \<lparr>items = []\<rparr>
      | Some l \<Rightarrow> insert_all l \<lparr>items = []\<rparr>)"

fun insert_each :: "'p TItem_arg list \<Rightarrow> 'p InMemoryCatalog \<Rightarrow> 'p InMemoryCatalog" where
  "insert_each [] c = c"
| "insert_each (item # rest) c = insert_each rest (snd (insert_item item c))"


section \<open>InMemoryConfigManager\<close>

datatype CONFIG_STATUS = INACTIVE | ACTIVE

fun CONFIG_STATUS_value :: "CONFIG_STATUS \<Rightarrow> jsnum" where
  "CONFIG_STATUS_value INACTIVE = Fin 0"
| "CONFIG_STATUS_value ACTIVE = Fin 1"

text \<open>
  \<^verbatim>\<open>interface Config { version: number; status: CONFIG_STATUS }\<close>, and \<^verbatim>\<open>TConfig extends
  Config\<close> as a record scheme. The argument of \<^verbatim>\<open>add\<close> and \<^verbatim>\<open>update\<close> carries unchecked
  run-time values; \<^verbatim>\<open>assertVersion\<close> and \<^verbatim>\<open>assertStatus\<close> narrow them to a number and to
  a member of the enum, and the stored clones carry those.
\<close>

record ('v, 's) Config =
  version :: 'v
  status :: 's

type_synonym 'p TConfig = "(jsnum, CONFIG_STATUS, 'p) Config_scheme"
type_synonym 'p TConfig_arg = "(jsval, jsval, 'p) Config_scheme"

text \<open>\<^verbatim>\<open>c.status == CONFIG_STATUS.ACTIVE\<close>\<close>

definition isActive :: "'p TConfig \<Rightarrow> bool" where
  "isActive c = (status c = ACTIVE)"

datatype InMemoryConfigManagerError =
    INVALID_VERSION jsval
  | INVALID_STATUS jsval
  | REMOVING_ACTIVE_CONFIG jsnum
  | NO_CONFIG jsnum
  | ACTIVE_OVERWRITE
  | DUPLICATE_VERSION jsnum
  | IMMUTABLE_FIELD_UPDATE string

text \<open>
  The manager mutates the \<^verbatim>\<open>status\<close> of stored objects in place and compares objects by
  reference, so the objects live in a store: \<open>heap\<close> holds every object made by
  \<^verbatim>\<open>structuredClone\<close>, and a reference is an index into it. The two \<^verbatim>\<open>Map\<close>s are
  association lists in insertion order. \<^verbatim>\<open>fakeDeepFreeze\<close> (package \<^verbatim>\<open>constconst\<close>) wraps
  an object in a read-only view that reads through to it, so a frozen view is the
  reference of the object it wraps. The only field the manager ever assigns is
  \<^verbatim>\<open>status\<close>, and it reads \<^verbatim>\<open>status\<close> from the canonical objects only; through a view it
  reads \<^verbatim>\<open>version\<close>, which never changes.
\<close>

type_synonym ref = nat

record 'p InMemoryConfigManager =
  heap :: "'p TConfig list"
  configs :: "(jsnum \<times> ref) list"
  fakeConfigs :: "(jsnum \<times> ref) list"
  activeConfig :: "ref option"

text \<open>\<^verbatim>\<open>if(typeof version != 'number' || isNaN(version) || version < 0) throw INVALID_VERSION\<close>\<close>

fun assertVersion :: "jsval \<Rightarrow> InMemoryConfigManagerError + jsnum" where
  "assertVersion (JNumber n) =
     (if isNaN n \<or> js_lt n (Fin 0) then Inl (INVALID_VERSION (JNumber n)) else Inr n)"
| "assertVersion v = Inl (INVALID_VERSION v)"

fun assertStatus :: "jsval \<Rightarrow> InMemoryConfigManagerError + CONFIG_STATUS" where
  "assertStatus (JNumber n) =
     (if isNaN n then Inl (INVALID_STATUS (JNumber n))
      else if \<not> js_eq n (CONFIG_STATUS_value INACTIVE) \<and> \<not> js_eq n (CONFIG_STATUS_value ACTIVE)
      then Inl (INVALID_STATUS (JNumber n))
      else Inr (if js_eq n (CONFIG_STATUS_value ACTIVE) then ACTIVE else INACTIVE))"
| "assertStatus v = Inl (INVALID_STATUS v)"

text \<open>\<^verbatim>\<open>this.activeConfig?.version\<close>, read through the view.\<close>

definition activeVersion :: "'p InMemoryConfigManager \<Rightarrow> jsnum option" where
  "activeVersion m =
     (case activeConfig m of None \<Rightarrow> None | Some a \<Rightarrow> Some (version (heap m ! a)))"

text \<open>
  \<^verbatim>\<open>structuredClone(config)\<close> once the two assertions have narrowed the version to \<open>v\<close> and
  the status to \<open>s\<close>: a new object in the store, and its reference.
\<close>

definition structuredClone :: "jsnum \<Rightarrow> CONFIG_STATUS \<Rightarrow> 'p TConfig_arg \<Rightarrow> 'p InMemoryConfigManager \<Rightarrow>
    ref \<times> 'p InMemoryConfigManager" where
  "structuredClone v s config m =
     (length (heap m), m\<lparr>heap := heap m @ [\<lparr>version = v, status = s, \<dots> = Config.more config\<rparr>]\<rparr>)"

text \<open>\<^verbatim>\<open>obj.status = s\<close> on the object behind a reference.\<close>

definition set_status :: "ref \<Rightarrow> CONFIG_STATUS \<Rightarrow> 'p InMemoryConfigManager \<Rightarrow> 'p InMemoryConfigManager" where
  "set_status r s m = m\<lparr>heap := (heap m)[r := (heap m ! r)\<lparr>status := s\<rparr>]\<rparr>"

text \<open>\<^verbatim>\<open>get(version?: unknown)\<close>; the call \<^verbatim>\<open>get()\<close> passes undefined.\<close>

definition get_config :: "jsval \<Rightarrow> 'p InMemoryConfigManager \<Rightarrow> InMemoryConfigManagerError + ref option" where
  "get_config ver m =
     (if truthy ver then
        (case assertVersion ver of
           Inl e \<Rightarrow> Inl e
         | Inr v \<Rightarrow> Inr (map_of (fakeConfigs m) v))
      else
        (case activeConfig m of
           Some a \<Rightarrow> Inr (map_of (fakeConfigs m) (version (heap m ! a)))
         | None \<Rightarrow> Inr None))"

definition getAll :: "'p InMemoryConfigManager \<Rightarrow> ref list" where
  "getAll m = map snd (fakeConfigs m)"

definition activate :: "jsval \<Rightarrow> 'p InMemoryConfigManager \<Rightarrow>
    (InMemoryConfigManagerError + unit) \<times> 'p InMemoryConfigManager" where
  "activate ver m =
     (case assertVersion ver of
        Inl e \<Rightarrow> (Inl e, m)
      | Inr v \<Rightarrow>
         (case map_of (configs m) v of
            None \<Rightarrow> (Inl (NO_CONFIG v), m)
          | Some config \<Rightarrow>
             (let activeVersion' = activeVersion m;
                  activeConfig' = (case activeVersion' of
                                     Some av \<Rightarrow> map_of (configs m) av
                                   | None \<Rightarrow> None)
              in if activeConfig' = Some config then (Inr (), m)
                 else
                   (let m1 = (case activeConfig' of
                                Some ac \<Rightarrow> set_status config ACTIVE (set_status ac INACTIVE m)
                              | None \<Rightarrow> set_status config ACTIVE m)
                    in (Inr (), m1\<lparr>activeConfig := map_of (fakeConfigs m1) (version (heap m1 ! config))\<rparr>)))))"

definition add_config :: "'p TConfig_arg \<Rightarrow> 'p InMemoryConfigManager \<Rightarrow>
    (InMemoryConfigManagerError + unit) \<times> 'p InMemoryConfigManager" where
  "add_config config m =
     (case assertVersion (version config) of
        Inl e \<Rightarrow> (Inl e, m)
      | Inr v \<Rightarrow>
         (case assertStatus (status config) of
            Inl e \<Rightarrow> (Inl e, m)
          | Inr s \<Rightarrow>
             if s = ACTIVE \<and> activeConfig m \<noteq> None then (Inl ACTIVE_OVERWRITE, m)
             else if map_of (configs m) v = None then
               (let (clone, m1) = structuredClone v s config m;
                    fakeClone = clone;
                    m2 = m1\<lparr>configs := AList.update v clone (configs m1)\<rparr>;
                    m3 = m2\<lparr>fakeConfigs := AList.update v fakeClone (fakeConfigs m2)\<rparr>
                in if s = ACTIVE then activate (version config) m3 else (Inr (), m3))
             else (Inl (DUPLICATE_VERSION v), m)))"

definition update_config :: "'p TConfig_arg \<Rightarrow> 'p InMemoryConfigManager \<Rightarrow>
    (InMemoryConfigManagerError + unit) \<times> 'p InMemoryConfigManager" where
  "update_config updatedConfig m =
     (case assertVersion (version updatedConfig) of
        Inl e \<Rightarrow> (Inl e, m)
      | Inr v \<Rightarrow>
         (case assertStatus (status updatedConfig) of
            Inl e \<Rightarrow> (Inl e, m)
          | Inr s \<Rightarrow>
             (case map_of (configs m) v of
                None \<Rightarrow> (Inr (), m)
              | Some config \<Rightarrow>
                 if s \<noteq> status (heap m ! config) then (Inl (IMMUTABLE_FIELD_UPDATE ''status''), m)
                 else
                   (let (clone, m1) = structuredClone v s updatedConfig m;
                        fakeClone = clone;
                        m2 = m1\<lparr>configs := AList.update v clone (configs m1)\<rparr>
                    in (Inr (), m2\<lparr>fakeConfigs := AList.update v fakeClone (fakeConfigs m2)\<rparr>)))))"

definition remove_config :: "jsval \<Rightarrow> 'p InMemoryConfigManager \<Rightarrow>
    (InMemoryConfigManagerError + unit) \<times> 'p InMemoryConfigManager" where
  "remove_config ver m =
     (case assertVersion ver of
        Inl e \<Rightarrow> (Inl e, m)
      | Inr v \<Rightarrow>
         (case map_of (configs m) v of
            None \<Rightarrow> (Inr (), m)
          | Some config \<Rightarrow>
             if isActive (heap m ! config) then (Inl (REMOVING_ACTIVE_CONFIG v), m)
             else
               (let m1 = m\<lparr>configs := AList.delete v (configs m)\<rparr>
                in (Inr (), m1\<lparr>fakeConfigs := AList.delete v (fakeConfigs m1)\<rparr>))))"

definition size_configs :: "'p InMemoryConfigManager \<Rightarrow> nat" where
  "size_configs m = length (configs m)"

text \<open>
  The constructor: \<^verbatim>\<open>for(const config of configs) this.add(config)\<close>; the first \<^verbatim>\<open>add\<close> that
  throws ends the construction.
\<close>

fun add_all :: "'p TConfig_arg list \<Rightarrow> 'p InMemoryConfigManager \<Rightarrow>
    InMemoryConfigManagerError + 'p InMemoryConfigManager" where
  "add_all [] m = Inr m"
| "add_all (config # rest) m =
     (case add_config config m of
        (Inl e, m') \<Rightarrow> Inl e
      | (Inr u, m') \<Rightarrow> add_all rest m')"

definition new_InMemoryConfigManager :: "'p TConfig_arg list option \<Rightarrow>
    InMemoryConfigManagerError + 'p InMemoryConfigManager" where
  "new_InMemoryConfigManager cs =
     (let m = \<lparr>heap = [], configs = [], fakeConfigs = [], activeConfig = None\<rparr>
      in case cs of None \<Rightarrow> Inr m | Some l \<Rightarrow> add_all l m)"

text \<open>
  A caller's mutating call, and a run of such calls one after the other; a call that
  throws leaves the manager as it is at the throw, and the run goes on.
\<close>

datatype 'p request =
    Add "'p TConfig_arg"
  | Update "'p TConfig_arg"
  | Remove jsval
  | Activate jsval

fun serve :: "'p request \<Rightarrow> 'p InMemoryConfigManager \<Rightarrow>
    (InMemoryConfigManagerError + unit) \<times> 'p InMemoryConfigManager" where
  "serve (Add config) m = add_config config m"
| "serve (Update config) m = update_config config m"
| "serve (Remove ver) m = remove_config ver m"
| "serve (Activate ver) m = activate ver m"

fun serve_all :: "'p request list \<Rightarrow> 'p InMemoryConfigManager \<Rightarrow> 'p InMemoryConfigManager" where
  "serve_all [] m = m"
| "serve_all (r # rs) m = serve_all rs (snd (serve r m))"

text \<open>The stored records whose status is ACTIVE, counted over the canonical \<^verbatim>\<open>Map\<close>.\<close>

definition count_active :: "'p InMemoryConfigManager \<Rightarrow> nat" where
  "count_active m = length (filter (\<lambda>(v, r). isActive (heap m ! r)) (configs m))"


section \<open>Properties the claims speak of\<close>

text \<open>Strictly ascending order of identity: every entry is below every later one.\<close>

definition ascending :: "'p TItem list \<Rightarrow> bool" where
  "ascending l = sorted_wrt (\<lambda>a b. js_lt (item_id a) (item_id b)) l"

text \<open>What every catalog built by the constructor and \<^verbatim>\<open>insert\<close> satisfies.\<close>

definition catalog_ok :: "'p InMemoryCatalog \<Rightarrow> bool" where
  "catalog_ok c = (ascending (items c) \<and>
     (\<forall>x \<in> set (items c). item_id x \<noteq> NaN \<and> \<not> js_lt (item_id x) (Fin 1)))"

text \<open>
  The identity rule in the words of the spec: an integer number, not NaN, at least 1.
\<close>

definition spec_valid_identity :: "jsval \<Rightarrow> bool" where
  "spec_valid_identity v =
     (case v of JNumber (Fin q) \<Rightarrow> of_int \<lfloor>q\<rfloor> = q \<and> 1 \<le> q | _ \<Rightarrow> False)"

text \<open>
  What every manager built by the constructor and the four mutating operations
  satisfies: the two maps hold the same references under the same versions; the keys
  are distinct; the object behind the reference stored under a version carries that
  version; when the active pointer is unset every stored record is INACTIVE, and when it
  is set the record stored under the pointer's version is ACTIVE and every other stored
  record is INACTIVE.
\<close>

definition manager_ok :: "'p InMemoryConfigManager \<Rightarrow> bool" where
  "manager_ok m =
     (fakeConfigs m = configs m
    \<and> distinct (map fst (configs m))
    \<and> (\<forall>v r. map_of (configs m) v = Some r \<longrightarrow> r < length (heap m) \<and> version (heap m ! r) = v)
    \<and> (case activeConfig m of
         None \<Rightarrow> (\<forall>v r. map_of (configs m) v = Some r \<longrightarrow> status (heap m ! r) = INACTIVE)
       | Some a \<Rightarrow> a < length (heap m)
            \<and> (\<exists>r. map_of (configs m) (version (heap m ! a)) = Some r \<and> status (heap m ! r) = ACTIVE)
            \<and> (\<forall>v r. map_of (configs m) v = Some r \<longrightarrow> v \<noteq> version (heap m ! a) \<longrightarrow>
                  status (heap m ! r) = INACTIVE)))"

text \<open>The manager after the two Map.set calls of add and update.\<close>

definition stored :: "jsnum \<Rightarrow> CONFIG_STATUS \<Rightarrow> 'p TConfig_arg \<Rightarrow> 'p InMemoryConfigManager \<Rightarrow> 'p InMemoryConfigManager" where
  "stored v s config m =
     m\<lparr>heap := heap m @ [\<lparr>version = v, status = s, \<dots> = Config.more config\<rparr>],
       configs := AList.update v (length (heap m)) (configs m),
       fakeConfigs := AList.update v (length (heap m)) (fakeConfigs m)\<rparr>"


section \<open>Example values\<close>

text \<open>A subclass whose hooks resolve, except for publishing an empty message.\<close>

definition ok_hooks :: "(unit, string) hooks" where
  "ok_hooks = \<lparr>hook_connect = (\<lambda>c. (None, c)), hook_disconnect = (\<lambda>c. (None, c)),
     hook_subscribe = (\<lambda>ch c. (None, c)), hook_unsubscribe = (\<lambda>ch c. (None, c)),
     hook_publish = (\<lambda>ch msg c. (if msg = [] then Some ''empty message'' else None, c))\<rparr>"

definition handler_in :: "PubSubModes \<Rightarrow> PubSubStates \<Rightarrow> unit PubSubHandler" where
  "handler_in md s = \<lparr>client = (), mode = mode_val md, state = s\<rparr>"

text \<open>An item with one more field, as a caller passes it and as the catalog stores it.\<close>

definition arg :: "rat \<Rightarrow> string \<Rightarrow> string TItem_arg" where
  "arg q s = \<lparr>item_id = JNumber (Fin q), \<dots> = s\<rparr>"

definition snap :: "rat \<Rightarrow> string \<Rightarrow> string TItem" where
  "snap q s = \<lparr>item_id = Fin q, \<dots> = s\<rparr>"

text \<open>A config with one more field, as a caller passes it and as the manager stores it.\<close>

definition cfg :: "rat \<Rightarrow> rat \<Rightarrow> string \<Rightarrow> string TConfig_arg" where
  "cfg v s d = \<lparr>version = JNumber (Fin v), status = JNumber (Fin s), \<dots> = d\<rparr>"

definition rec :: "rat \<Rightarrow> CONFIG_STATUS \<Rightarrow> string \<Rightarrow> string TConfig" where
  "rec v s d = \<lparr>version = Fin v, status = s, \<dots> = d\<rparr>"

text \<open>A manager given by its store, its entries (the same in both maps) and its pointer.\<close>

definition manager_of :: "string TConfig list \<Rightarrow> (rat \<times> ref) list \<Rightarrow> ref option \<Rightarrow> string InMemoryConfigManager" where
  "manager_of h cs a = \<lparr>heap = h, configs = map (\<lambda>(v, r). (Fin v, r)) cs,
     fakeConfigs = map (\<lambda>(v, r). (Fin v, r)) cs, activeConfig = a\<rparr>"

definition one_config :: "string InMemoryConfigManager" where
  "one_config = manager_of [rec 1 ACTIVE ''a''] [(1, 0)] (Some 0)"

definition two_configs :: "string InMemoryConfigManager" where
  "two_configs = manager_of [rec 1 ACTIVE ''a'', rec 2 INACTIVE ''b''] [(1, 0), (2, 1)] (Some 0)"

definition zero_and_one :: "string InMemoryConfigManager" where
  "zero_and_one = manager_of [rec 0 INACTIVE ''z'', rec 1 ACTIVE ''a''] [(0, 0), (1, 1)] (Some 1)"


section \<open>PubSubHandler: the constructor and the transitions\<close>

lemma validateMode_iff:
  "validateMode md \<longleftrightarrow>
     md \<in> {JNumber (Fin (- 1)), JNumber (Fin 0), JNumber (Fin 1), JNumber (Fin 2)}"
  by (cases md) (auto simp: validateMode_def in_PubSubStates_def)

lemma validateMode_recognized: "validateMode (mode_val md)"
  by (cases md) (simp_all add: validateMode_iff mode_val_def)

lemma new_PubSubHandler_recognized:
  "new_PubSubHandler False c (mode_val md) = Inr \<lparr>client = c, mode = mode_val md, state = DISCONNECTED\<rparr>"
  by (simp add: new_PubSubHandler_def validateMode_recognized)

lemma new_PubSubHandler_state:
  "new_PubSubHandler direct c md = Inr h \<Longrightarrow> state h = DISCONNECTED"
  by (auto simp: new_PubSubHandler_def split: if_splits)

text \<open>
  C3. Constructing a subclass with a mode that is not one of SUB, PUB, DUAL should fail
  with the error "Invalid Mode". The check tests the mode against the keys of
  \<^verbatim>\<open>PubSubStates\<close>, not of \<^verbatim>\<open>PubSubModes\<close>, and \<^verbatim>\<open>PubSubStates\<close> has the member
  \<^verbatim>\<open>UNSUBSCRIBED = -1\<close>: the mode \<open>-1\<close>, which is none of the three modes, is accepted and
  the handler is built in state DISCONNECTED with that mode.
\<close>

theorem constructor_accepts_minus_one:
  "(new_PubSubHandler False () (JNumber (Fin (- 1))) :: unit failure + unit PubSubHandler)
     = Inr \<lparr>client = (), mode = JNumber (Fin (- 1)), state = DISCONNECTED\<rparr>
   \<and> JNumber (Fin (- 1)) \<notin> set (map mode_val [SUB, PUB, DUAL])"
  by (simp add: new_PubSubHandler_def validateMode_iff mode_val_def)

lemma isConnected_iff: "isConnected h \<longleftrightarrow> state h \<in> {CONNECTED, SUBSCRIBED}"
  by (cases "state h") (simp_all add: isConnected_def)

lemma mode_val_inject [simp]: "mode_val a = mode_val b \<longleftrightarrow> a = b"
  by (cases a; cases b) (simp_all add: mode_val_def)

text \<open>
  C8. The transitions follow the table. "At least CONNECTED" is the states CONNECTED and
  SUBSCRIBED. \<^verbatim>\<open>connect\<close> is a no-op there and otherwise sets CONNECTED once its hook has
  resolved; \<^verbatim>\<open>disconnect\<close> is a no-op below CONNECTED and otherwise sets DISCONNECTED;
  \<^verbatim>\<open>subscribe\<close>, \<^verbatim>\<open>unsubscribe\<close> and \<^verbatim>\<open>publish\<close> throw "Not Connected" below CONNECTED
  whatever the mode; connected, \<^verbatim>\<open>subscribe\<close> and \<^verbatim>\<open>unsubscribe\<close> throw "Can Not Subscribe"
  in mode PUB and in modes SUB and DUAL set SUBSCRIBED, respectively DISCONNECTED;
  connected, \<^verbatim>\<open>publish\<close> throws "Can Not Publish" in mode SUB and in modes PUB and DUAL
  leaves the state as it is. A throwing call changes nothing. When the hook rejects, its
  error surfaces and the state is not assigned.
\<close>

theorem transitions_conform:
  "(state h \<in> {CONNECTED, SUBSCRIBED} \<longrightarrow> connect T h = (Inr (), h))
 \<and> (state h \<notin> {CONNECTED, SUBSCRIBED} \<longrightarrow> hook_connect T (client h) = (None, c') \<longrightarrow>
      connect T h = (Inr (), h\<lparr>client := c', state := CONNECTED\<rparr>))
 \<and> (state h \<notin> {CONNECTED, SUBSCRIBED} \<longrightarrow> disconnect T h = (Inr (), h))
 \<and> (state h \<in> {CONNECTED, SUBSCRIBED} \<longrightarrow> hook_disconnect T (client h) = (None, c') \<longrightarrow>
      disconnect T h = (Inr (), h\<lparr>client := c', state := DISCONNECTED\<rparr>))
 \<and> (state h \<notin> {CONNECTED, SUBSCRIBED} \<longrightarrow>
      subscribe T ch h = (Inl (PubSubHandlerError ''Not Connected''), h)
    \<and> unsubscribe T ch h = (Inl (PubSubHandlerError ''Not Connected''), h)
    \<and> publish T ch msg h = (Inl (PubSubHandlerError ''Not Connected''), h))
 \<and> (state h \<in> {CONNECTED, SUBSCRIBED} \<longrightarrow> mode h = mode_val PUB \<longrightarrow>
      subscribe T ch h = (Inl (PubSubHandlerError ''Can Not Subscribe''), h)
    \<and> unsubscribe T ch h = (Inl (PubSubHandlerError ''Can Not Subscribe''), h))
 \<and> (state h \<in> {CONNECTED, SUBSCRIBED} \<longrightarrow> mode h \<in> {mode_val SUB, mode_val DUAL} \<longrightarrow>
      hook_subscribe T ch (client h) = (None, c') \<longrightarrow>
      subscribe T ch h = (Inr (), h\<lparr>client := c', state := SUBSCRIBED\<rparr>))
 \<and> (state h \<in> {CONNECTED, SUBSCRIBED} \<longrightarrow> mode h \<in> {mode_val SUB, mode_val DUAL} \<longrightarrow>
      hook_unsubscribe T ch (client h) = (None, c') \<longrightarrow>
      unsubscribe T ch h = (Inr (), h\<lparr>client := c', state := DISCONNECTED\<rparr>))
 \<and> (state h \<in> {CONNECTED, SUBSCRIBED} \<longrightarrow> mode h = mode_val SUB \<longrightarrow>
      publish T ch msg h = (Inl (PubSubHandlerError ''Can Not Publish''), h))
 \<and> (state h \<in> {CONNECTED, SUBSCRIBED} \<longrightarrow> mode h \<in> {mode_val PUB, mode_val DUAL} \<longrightarrow>
      hook_publish T ch msg (client h) = (None, c') \<longrightarrow>
      publish T ch msg h = (Inr (), h\<lparr>client := c'\<rparr>)
    \<and> state (snd (publish T ch msg h)) = state h)
 \<and> (state h \<notin> {CONNECTED, SUBSCRIBED} \<longrightarrow> hook_connect T (client h) = (Some e, c') \<longrightarrow>
      connect T h = (Inl (HookFailure e), h\<lparr>client := c'\<rparr>))
 \<and> (state h \<in> {CONNECTED, SUBSCRIBED} \<longrightarrow> hook_disconnect T (client h) = (Some e, c') \<longrightarrow>
      disconnect T h = (Inl (HookFailure e), h\<lparr>client := c'\<rparr>))
 \<and> (state h \<in> {CONNECTED, SUBSCRIBED} \<longrightarrow> mode h \<in> {mode_val SUB, mode_val DUAL} \<longrightarrow>
      hook_subscribe T ch (client h) = (Some e, c') \<longrightarrow>
      subscribe T ch h = (Inl (HookFailure e), h\<lparr>client := c'\<rparr>))
 \<and> (state h \<in> {CONNECTED, SUBSCRIBED} \<longrightarrow> mode h \<in> {mode_val SUB, mode_val DUAL} \<longrightarrow>
      hook_unsubscribe T ch (client h) = (Some e, c') \<longrightarrow>
      unsubscribe T ch h = (Inl (HookFailure e), h\<lparr>client := c'\<rparr>))
 \<and> (state h \<in> {CONNECTED, SUBSCRIBED} \<longrightarrow> mode h \<in> {mode_val PUB, mode_val DUAL} \<longrightarrow>
      hook_publish T ch msg (client h) = (Some e, c') \<longrightarrow>
      publish T ch msg h = (Inl (HookFailure e), h\<lparr>client := c'\<rparr>))"
  by (simp add: isConnected_iff connect_def disconnect_def subscribe_def unsubscribe_def
      publish_def connectionCheck_def subModeCheck_def pubModeCheck_def canSubscribe_def
      canPublish_def await_then_def)

theorem transitions_conform_witness:
  "connect ok_hooks (handler_in SUB CONNECTED) = (Inr (), handler_in SUB CONNECTED)
 \<and> connect ok_hooks (handler_in SUB DISCONNECTED) = (Inr (), handler_in SUB CONNECTED)
 \<and> disconnect ok_hooks (handler_in SUB DISCONNECTED) = (Inr (), handler_in SUB DISCONNECTED)
 \<and> disconnect ok_hooks (handler_in SUB SUBSCRIBED) = (Inr (), handler_in SUB DISCONNECTED)
 \<and> subscribe ok_hooks ''x'' (handler_in SUB DISCONNECTED)
      = (Inl (PubSubHandlerError ''Not Connected''), handler_in SUB DISCONNECTED)
 \<and> subscribe ok_hooks ''x'' (handler_in PUB CONNECTED)
      = (Inl (PubSubHandlerError ''Can Not Subscribe''), handler_in PUB CONNECTED)
 \<and> subscribe ok_hooks ''x'' (handler_in SUB CONNECTED) = (Inr (), handler_in SUB SUBSCRIBED)
 \<and> unsubscribe ok_hooks ''x'' (handler_in DUAL SUBSCRIBED) = (Inr (), handler_in DUAL DISCONNECTED)
 \<and> publish ok_hooks ''x'' ''m'' (handler_in SUB CONNECTED)
      = (Inl (PubSubHandlerError ''Can Not Publish''), handler_in SUB CONNECTED)
 \<and> publish ok_hooks ''x'' ''m'' (handler_in PUB SUBSCRIBED) = (Inr (), handler_in PUB SUBSCRIBED)
 \<and> publish ok_hooks ''x'' '''' (handler_in PUB SUBSCRIBED)
      = (Inl (HookFailure ''empty message''), handler_in PUB SUBSCRIBED)"
  using transitions_conform [of "handler_in SUB CONNECTED" ok_hooks "()" "''x''" "''m''"]
    transitions_conform [of "handler_in SUB DISCONNECTED" ok_hooks "()" "''x''" "''m''"]
    transitions_conform [of "handler_in SUB SUBSCRIBED" ok_hooks "()" "''x''" "''m''"]
    transitions_conform [of "handler_in PUB CONNECTED" ok_hooks "()" "''x''" "''m''"]
    transitions_conform [of "handler_in DUAL SUBSCRIBED" ok_hooks "()" "''x''" "''m''"]
    transitions_conform [of "handler_in PUB SUBSCRIBED" ok_hooks "()" "''x''" "''m''"]
    transitions_conform [of "handler_in PUB SUBSCRIBED" ok_hooks "()" "''x''" "''''" "''empty message''"]
  by (simp add: handler_in_def ok_hooks_def)

lemma await_then_state:
  "state (snd (await_then r s h)) = state h \<or>
   (\<exists>s'. s = Some s' \<and> state (snd (await_then r s h)) = s')"
  by (auto simp: await_then_def split: prod.splits option.splits)

lemma perform_state:
  "state (snd (perform T c h)) \<in> {state h, DISCONNECTED, CONNECTED, SUBSCRIBED}"
proof (cases c)
  case Connect
  then show ?thesis
    using await_then_state [of "hook_connect T (client h)" "Some CONNECTED" h]
    by (auto simp: connect_def)
next
  case Disconnect
  then show ?thesis
    using await_then_state [of "hook_disconnect T (client h)" "Some DISCONNECTED" h]
    by (auto simp: disconnect_def)
next
  case (Subscribe ch)
  then show ?thesis
    using await_then_state [of "hook_subscribe T ch (client h)" "Some SUBSCRIBED" h]
    by (auto simp: subscribe_def split: sum.splits)
next
  case (Unsubscribe ch)
  then show ?thesis
    using await_then_state [of "hook_unsubscribe T ch (client h)" "Some DISCONNECTED" h]
    by (auto simp: unsubscribe_def split: sum.splits)
next
  case (Publish ch msg)
  then show ?thesis
    using await_then_state [of "hook_publish T ch msg (client h)" None h]
    by (auto simp: publish_def split: sum.splits)
qed

lemma perform_all_state:
  "state h \<in> {DISCONNECTED, CONNECTED, SUBSCRIBED} \<Longrightarrow>
   state (perform_all T cs h) \<in> {DISCONNECTED, CONNECTED, SUBSCRIBED}"
proof (induction cs arbitrary: h)
  case Nil
  then show ?case by simp
next
  case (Cons c cs)
  have "state (snd (perform T c h)) \<in> {DISCONNECTED, CONNECTED, SUBSCRIBED}"
    using perform_state [of T c h] Cons.prems by auto
  then show ?case using Cons.IH by simp
qed

text \<open>
  C10. A handler that the constructor returned starts in DISCONNECTED, and after any
  run of \<^verbatim>\<open>connect\<close>, \<^verbatim>\<open>disconnect\<close>, \<^verbatim>\<open>subscribe\<close>, \<^verbatim>\<open>unsubscribe\<close> and \<^verbatim>\<open>publish\<close> calls,
  with hooks that resolve or reject as they like, its state is DISCONNECTED, CONNECTED or
  SUBSCRIBED: UNSUBSCRIBED is never reached.
\<close>

theorem never_unsubscribed:
  assumes "new_PubSubHandler direct c md = Inr h"
  shows "state (perform_all T cs h) \<in> {DISCONNECTED, CONNECTED, SUBSCRIBED}
       \<and> state (perform_all T cs h) \<noteq> UNSUBSCRIBED"
proof -
  have "state h = DISCONNECTED"
    using assms by (rule new_PubSubHandler_state)
  then have "state (perform_all T cs h) \<in> {DISCONNECTED, CONNECTED, SUBSCRIBED}"
    by (intro perform_all_state) simp
  then show ?thesis by auto
qed

theorem never_unsubscribed_witness:
  "(new_PubSubHandler False () (mode_val DUAL) :: string failure + unit PubSubHandler)
     = Inr (handler_in DUAL DISCONNECTED)
 \<and> state (perform_all ok_hooks
      [Connect, Subscribe ''x'', Publish ''x'' '''', Unsubscribe ''x'', Subscribe ''x'', Connect]
      (handler_in DUAL DISCONNECTED)) \<noteq> UNSUBSCRIBED"
proof -
  have built: "(new_PubSubHandler False () (mode_val DUAL) :: string failure + unit PubSubHandler)
      = Inr (handler_in DUAL DISCONNECTED)"
    by (simp add: new_PubSubHandler_recognized handler_in_def)
  show ?thesis
    using built never_unsubscribed [OF built, of ok_hooks
        "[Connect, Subscribe ''x'', Publish ''x'' '''', Unsubscribe ''x'', Subscribe ''x'', Connect]"]
    by simp
qed


section \<open>InMemoryCatalog: identities and order\<close>

lemma js_lt_irrefl [simp]: "\<not> js_lt a a"
  by (cases a) simp_all

lemma js_lt_trans: "js_lt a b \<Longrightarrow> js_lt b c \<Longrightarrow> js_lt a c"
  by (cases a; cases b; cases c) simp_all

lemma js_lt_total: "a \<noteq> NaN \<Longrightarrow> b \<noteq> NaN \<Longrightarrow> js_lt a b \<or> a = b \<or> js_lt b a"
  by (cases a; cases b) auto

lemma js_lt_NaN [simp]: "\<not> js_lt a NaN" "\<not> js_lt NaN a"
  by (cases a; simp)+

lemma js_lt_sub: "js_lt (js_sub a b) (Fin 0) = js_lt a b"
  by (cases a; cases b) simp_all

lemma insertionIndex_from_correct:
  assumes "lo \<le> hi" "hi \<le> length arr"
    and "\<And>i j. i \<le> j \<Longrightarrow> j < length arr \<Longrightarrow> js_lt (cmp (arr ! j) v) (Fin 0) \<Longrightarrow> js_lt (cmp (arr ! i) v) (Fin 0)"
    and "\<And>i. i < lo \<Longrightarrow> js_lt (cmp (arr ! i) v) (Fin 0)"
    and "\<And>i. hi \<le> i \<Longrightarrow> i < length arr \<Longrightarrow> \<not> js_lt (cmp (arr ! i) v) (Fin 0)"
  shows "lo \<le> insertionIndex_from arr cmp v lo hi \<and> insertionIndex_from arr cmp v lo hi \<le> hi
       \<and> (\<forall>i < insertionIndex_from arr cmp v lo hi. js_lt (cmp (arr ! i) v) (Fin 0))
       \<and> (\<forall>i. insertionIndex_from arr cmp v lo hi \<le> i \<longrightarrow> i < length arr \<longrightarrow> \<not> js_lt (cmp (arr ! i) v) (Fin 0))"
  using assms
proof (induction arr cmp v lo hi rule: insertionIndex_from.induct)
  case (1 arr cmp v lo hi)
  show ?case
  proof (cases "lo < hi")
    case False
    with "1.prems" have "lo = hi" by simp
    then show ?thesis using "1.prems" by (simp add: insertionIndex_from.simps [of arr cmp v hi hi])
  next
    case True
    define mid where "mid = (lo + hi) div 2"
    have mid: "lo \<le> mid" "mid < hi" using True by (simp_all add: mid_def)
    show ?thesis
    proof (cases "js_lt (cmp (arr ! mid) v) (Fin 0)")
      case lt: True
      have eq: "insertionIndex_from arr cmp v lo hi = insertionIndex_from arr cmp v (mid + 1) hi"
        using True lt by (subst insertionIndex_from.simps) (simp add: mid_def Let_def)
      have below: "\<And>i. i < mid + 1 \<Longrightarrow> js_lt (cmp (arr ! i) v) (Fin 0)"
      proof -
        fix i assume "i < mid + 1"
        then have "i \<le> mid" by simp
        moreover have "mid < length arr" using mid "1.prems"(2) by simp
        ultimately show "js_lt (cmp (arr ! i) v) (Fin 0)" using "1.prems"(3) lt by blast
      qed
      have "mid + 1 \<le> insertionIndex_from arr cmp v (mid + 1) hi \<and> insertionIndex_from arr cmp v (mid + 1) hi \<le> hi
       \<and> (\<forall>i < insertionIndex_from arr cmp v (mid + 1) hi. js_lt (cmp (arr ! i) v) (Fin 0))
       \<and> (\<forall>i. insertionIndex_from arr cmp v (mid + 1) hi \<le> i \<longrightarrow> i < length arr \<longrightarrow> \<not> js_lt (cmp (arr ! i) v) (Fin 0))"
        using "1.IH"(1) [OF True mid_def lt _ "1.prems"(2) "1.prems"(3) below "1.prems"(5)] mid
        by simp
      then show ?thesis unfolding eq using mid by auto
    next
      case ge: False
      have eq: "insertionIndex_from arr cmp v lo hi = insertionIndex_from arr cmp v lo mid"
        using True ge by (subst insertionIndex_from.simps) (simp add: mid_def Let_def)
      have above: "\<And>i. mid \<le> i \<Longrightarrow> i < length arr \<Longrightarrow> \<not> js_lt (cmp (arr ! i) v) (Fin 0)"
        using "1.prems"(3) ge by blast
      have "lo \<le> insertionIndex_from arr cmp v lo mid \<and> insertionIndex_from arr cmp v lo mid \<le> mid
       \<and> (\<forall>i < insertionIndex_from arr cmp v lo mid. js_lt (cmp (arr ! i) v) (Fin 0))
       \<and> (\<forall>i. insertionIndex_from arr cmp v lo mid \<le> i \<longrightarrow> i < length arr \<longrightarrow> \<not> js_lt (cmp (arr ! i) v) (Fin 0))"
        using "1.IH"(2) [OF True mid_def ge _ _ "1.prems"(3) "1.prems"(4) above] mid "1.prems"(2)
        by simp
      then show ?thesis unfolding eq using mid by auto
    qed
  qed
qed



lemma assertId_Inr: "assertId v = Inr n \<longleftrightarrow> v = JNumber n \<and> n \<noteq> NaN \<and> \<not> js_lt n (Fin 1)"
  by (cases v) (auto simp: isNaN_def)

lemma assertId_Inl: "assertId v = Inl e \<Longrightarrow> e = INVALID_ID v"
  by (cases v) (auto split: if_splits)

lemma ascending_nth: "ascending l \<Longrightarrow> i < j \<Longrightarrow> j < length l \<Longrightarrow> js_lt (item_id (l ! i)) (item_id (l ! j))"
  using sorted_wrt_nth_less [of "\<lambda>a b. js_lt (item_id a) (item_id b)" l i j]
  by (simp add: ascending_def)

lemma insertionIndex_items:
  assumes "catalog_ok c" "item_id fc = n"
  defines "p \<equiv> insertionIndex (items c) itemIdComparator fc"
  shows "p \<le> length (items c)"
    and "\<And>i. i < p \<Longrightarrow> js_lt (item_id (items c ! i)) n"
    and "\<And>i. p \<le> i \<Longrightarrow> i < length (items c) \<Longrightarrow> \<not> js_lt (item_id (items c ! i)) n"
proof -
  have mono: "\<And>i j. i \<le> j \<Longrightarrow> j < length (items c) \<Longrightarrow>
      js_lt (itemIdComparator (items c ! j) fc) (Fin 0) \<Longrightarrow> js_lt (itemIdComparator (items c ! i) fc) (Fin 0)"
  proof -
    fix i j assume ij: "i \<le> j" "j < length (items c)"
      and lt: "js_lt (itemIdComparator (items c ! j) fc) (Fin 0)"
    show "js_lt (itemIdComparator (items c ! i) fc) (Fin 0)"
    proof (cases "i = j")
      case True
      then show ?thesis using lt by simp
    next
      case False
      then have "js_lt (item_id (items c ! i)) (item_id (items c ! j))"
        using ij assms(1) by (intro ascending_nth) (simp_all add: catalog_ok_def)
      then show ?thesis using lt js_lt_trans by (auto simp: itemIdComparator_def js_lt_sub)
    qed
  qed
  have "0 \<le> p \<and> p \<le> length (items c)
       \<and> (\<forall>i < p. js_lt (itemIdComparator (items c ! i) fc) (Fin 0))
       \<and> (\<forall>i. p \<le> i \<longrightarrow> i < length (items c) \<longrightarrow> \<not> js_lt (itemIdComparator (items c ! i) fc) (Fin 0))"
    unfolding p_def insertionIndex_def
    by (rule insertionIndex_from_correct) (use mono in auto)
  then show "p \<le> length (items c)"
    and "\<And>i. i < p \<Longrightarrow> js_lt (item_id (items c ! i)) n"
    and "\<And>i. p \<le> i \<Longrightarrow> i < length (items c) \<Longrightarrow> \<not> js_lt (item_id (items c ! i)) n"
    using assms(2) by (auto simp: itemIdComparator_def js_lt_sub)
qed

lemma ascending_splice_in:
  assumes "ascending l" "p \<le> length l"
    and "\<And>i. i < p \<Longrightarrow> js_lt (item_id (l ! i)) (item_id x)"
    and "\<And>i. p \<le> i \<Longrightarrow> i < length l \<Longrightarrow> js_lt (item_id x) (item_id (l ! i))"
  shows "ascending (splice_in l p x)"
proof -
  have l: "l = take p l @ drop p l" by simp
  have s: "sorted_wrt (\<lambda>a b. js_lt (item_id a) (item_id b)) (take p l @ drop p l)"
    using assms(1) by (simp add: ascending_def)
  have a: "\<forall>a \<in> set (take p l). js_lt (item_id a) (item_id x)"
    using assms(2,3) by (auto simp: in_set_conv_nth)
  have b: "\<forall>b \<in> set (drop p l). js_lt (item_id x) (item_id b)"
    using assms(2,4) by (auto simp: in_set_conv_nth)
  show ?thesis
    using s a b unfolding ascending_def splice_in_def sorted_wrt_append
    by auto
qed

lemma insert_item_cases:
  assumes "catalog_ok c"
  shows "(\<exists>e. insert_item item c = (Inl e, c)) \<or>
         (\<exists>c'. insert_item item c = (Inr (), c') \<and> catalog_ok c')"
proof (cases "assertId (item_id item)")
  case (Inl e)
  then show ?thesis by (simp add: insert_item_def)
next
  case (Inr n)
  define fc where "fc = narrow n item"
  define p where "p = insertionIndex (items c) itemIdComparator fc"
  have id: "item_id fc = n" by (simp add: fc_def frozenClone_def narrow_def)
  have n: "n \<noteq> NaN" and n1: "\<not> js_lt n (Fin 1)" using Inr by (simp_all add: assertId_Inr)
  note pp = insertionIndex_items [OF assms id, folded p_def]
  show ?thesis
  proof (cases "case at_index (items c) p of None \<Rightarrow> True | Some x \<Rightarrow> \<not> js_eq (item_id x) (item_id fc)")
    case False
    then show ?thesis using Inr by (simp add: insert_item_def Let_def fc_def p_def frozenClone_def cong: option.case_cong)
  next
    case True
    have res: "insert_item item c = (Inr (), c\<lparr>items := splice_in (items c) p fc\<rparr>)"
      using Inr True by (simp add: insert_item_def Let_def fc_def p_def frozenClone_def cong: option.case_cong)
    have above: "\<And>i. p \<le> i \<Longrightarrow> i < length (items c) \<Longrightarrow> js_lt n (item_id (items c ! i))"
    proof -
      fix i assume i: "p \<le> i" "i < length (items c)"
      then have plen: "p < length (items c)" by simp
      have "items c ! p \<in> set (items c)" using plen by simp
      then have nn: "item_id (items c ! p) \<noteq> NaN" using assms by (simp add: catalog_ok_def)
      have "item_id (items c ! p) \<noteq> n" using True plen n id by (simp add: at_index_def js_eq_def)
      moreover have "\<not> js_lt (item_id (items c ! p)) n" using pp(3) plen by simp
      ultimately have first: "js_lt n (item_id (items c ! p))" using js_lt_total [OF nn n] by auto
      show "js_lt n (item_id (items c ! i))"
      proof (cases "i = p")
        case True
        then show ?thesis using first by simp
      next
        case False
        then have "js_lt (item_id (items c ! p)) (item_id (items c ! i))"
          using i assms by (intro ascending_nth) (simp_all add: catalog_ok_def)
        then show ?thesis using first js_lt_trans by blast
      qed
    qed
    have "ascending (splice_in (items c) p fc)"
      using assms pp(1) pp(2) above by (intro ascending_splice_in) (simp_all add: catalog_ok_def id)
    moreover have "\<forall>x \<in> set (splice_in (items c) p fc). item_id x \<noteq> NaN \<and> \<not> js_lt (item_id x) (Fin 1)"
      using assms n id n1 by (auto simp: splice_in_def catalog_ok_def dest: in_set_takeD in_set_dropD)
    ultimately show ?thesis using res by (simp add: catalog_ok_def)
  qed
qed

lemma insert_item_duplicate:
  assumes "catalog_ok c" "x \<in> set (items c)" "item_id item = JNumber (item_id x)"
  shows "insert_item item c = (Inl (DUPLICATE_INSERT_ERROR (item_id x)), c)"
proof -
  define n where "n = item_id x"
  define fc where "fc = narrow n item"
  define p where "p = insertionIndex (items c) itemIdComparator fc"
  have id: "item_id fc = n" by (simp add: fc_def frozenClone_def narrow_def)
  have n: "n \<noteq> NaN" using assms by (simp add: catalog_ok_def n_def)
  note pp = insertionIndex_items [OF assms(1) id, folded p_def]
  obtain k where k: "k < length (items c)" "items c ! k = x"
    using assms(2) by (auto simp: in_set_conv_nth)
  have "\<not> k < p" using pp(2) [of k] k by (auto simp: n_def)
  then have pk: "p \<le> k" by simp
  have "\<not> p < k"
  proof
    assume "p < k"
    then have "js_lt (item_id (items c ! p)) (item_id (items c ! k))"
      using k assms(1) by (intro ascending_nth) (simp_all add: catalog_ok_def)
    moreover have "\<not> js_lt (item_id (items c ! p)) n"
      using pp(3) [of p] k pk by simp
    ultimately show False using k by (simp add: n_def)
  qed
  then have "p = k" using pk by simp
  then have at: "at_index (items c) p = Some x" using k by (simp add: at_index_def)
  have valid: "assertId (item_id item) = Inr n"
  proof -
    have "\<not> js_lt n (Fin 1)" using assms(1,2) by (simp add: catalog_ok_def n_def)
    then show ?thesis using assms(3) n by (simp add: isNaN_def n_def)
  qed
  have "at_index (items c) (insertionIndex (items c) itemIdComparator (narrow n item)) = Some x"
    using at by (simp add: p_def fc_def)
  then show ?thesis
    using valid n by (simp add: insert_item_def Let_def js_eq_def n_def frozenClone_def narrow_def)
qed


lemma fold_push: "fold (\<lambda>item copyArray. copyArray @ [item]) l acc = acc @ l"
  by (induction l arbitrary: acc) simp_all

lemma fetchAll_items: "fetchAll c = items c"
  by (simp add: fetchAll_def fold_push)

lemma insert_item_ok: "catalog_ok c \<Longrightarrow> catalog_ok (snd (insert_item item c))"
  using insert_item_cases [of c item] by auto

lemma insert_each_ok: "catalog_ok c \<Longrightarrow> catalog_ok (insert_each its c)"
  by (induction its arbitrary: c) (simp_all add: insert_item_ok)

lemma insert_all_ok: "catalog_ok c \<Longrightarrow> insert_all its c = Inr c' \<Longrightarrow> catalog_ok c'"
proof (induction its arbitrary: c)
  case Nil
  then show ?case by simp
next
  case (Cons item its)
  then show ?case using insert_item_ok [of c item]
    by (auto split: prod.splits sum.splits)
qed

lemma new_InMemoryCatalog_ok: "new_InMemoryCatalog init = Inr c \<Longrightarrow> catalog_ok c"
  using insert_all_ok [of "\<lparr>items = []\<rparr>"]
  by (auto simp: new_InMemoryCatalog_def catalog_ok_def ascending_def split: option.splits)

lemma ascending_distinct: "ascending l \<Longrightarrow> distinct (map item_id l)"
  by (induction l) (auto simp: ascending_def)

lemma bSearch_from_range:
  "lo \<le> hi \<Longrightarrow> bSearch_from arr cmp v lo hi = - 1 \<or>
     (int lo \<le> bSearch_from arr cmp v lo hi \<and> bSearch_from arr cmp v lo hi < int hi)"
proof (induction arr cmp v lo hi rule: bSearch_from.induct)
  case (1 arr cmp v lo hi)
  show ?case
  proof (cases "lo < hi")
    case False
    then show ?thesis by (simp add: bSearch_from.simps [of arr cmp v lo hi])
  next
    case True
    define mid where "mid = (lo + hi) div 2"
    define c where "c = cmp (arr ! mid) v"
    have mid: "lo \<le> mid" "mid < hi" using True by (simp_all add: mid_def)
    consider (below) "js_lt c (Fin 0)"
      | (above) "\<not> js_lt c (Fin 0)" "js_lt (Fin 0) c"
      | (found) "\<not> js_lt c (Fin 0)" "\<not> js_lt (Fin 0) c"
      by blast
    then show ?thesis
    proof cases
      case below
      have "bSearch_from arr cmp v lo hi = bSearch_from arr cmp v (mid + 1) hi"
        using True below by (subst bSearch_from.simps) (simp add: mid_def c_def Let_def)
      moreover have "bSearch_from arr cmp v (mid + 1) hi = - 1 \<or>
          (int (mid + 1) \<le> bSearch_from arr cmp v (mid + 1) hi \<and> bSearch_from arr cmp v (mid + 1) hi < int hi)"
        using "1.IH"(1) [OF True mid_def c_def below] mid by simp
      ultimately show ?thesis using mid by auto
    next
      case above
      have "bSearch_from arr cmp v lo hi = bSearch_from arr cmp v lo mid"
        using True above by (subst bSearch_from.simps) (simp add: mid_def c_def Let_def)
      moreover have "bSearch_from arr cmp v lo mid = - 1 \<or>
          (int lo \<le> bSearch_from arr cmp v lo mid \<and> bSearch_from arr cmp v lo mid < int mid)"
        using "1.IH"(2) [OF True mid_def c_def above] mid by simp
      ultimately show ?thesis using mid by auto
    next
      case found
      have "bSearch_from arr cmp v lo hi = int mid"
        using True found by (subst bSearch_from.simps) (simp add: mid_def c_def Let_def)
      then show ?thesis using mid by simp
    qed
  qed
qed

text \<open>A position that \<^verbatim>\<open>#findIndex\<close> returns is a position of the array.\<close>

lemma findIndex_range:
  "findIndex x c = - 1 \<or> (0 \<le> findIndex x c \<and> nat (findIndex x c) < length (items c))"
proof -
  define v where "v = (case x of Inl n \<Rightarrow> \<lparr>item_id = n\<rparr> | Inr it \<Rightarrow> Item.truncate it)"
  have "findIndex x c = bSearch_from (items c) itemIdComparator v 0 (length (items c))"
    by (simp add: findIndex_def bSearch_def v_def)
  then show ?thesis
    using bSearch_from_range [of 0 "length (items c)" "items c" itemIdComparator v] by auto
qed

lemma assertId_accepts:
  "(\<exists>n. assertId v = Inr n) \<longleftrightarrow> (v = JNumber Infinity \<or> (\<exists>q. v = JNumber (Fin q) \<and> 1 \<le> q))"
proof (cases v)
  case (JNumber n)
  then show ?thesis by (cases n) (auto simp: isNaN_def)
qed simp_all

lemma assertId_rejects:
  assumes "\<forall>n. assertId v \<noteq> Inr n"
  shows "assertId v = Inl (INVALID_ID v)"
proof (cases "assertId v")
  case (Inl e)
  then show ?thesis using assertId_Inl by blast
next
  case (Inr n)
  then show ?thesis using assms by simp
qed

text \<open>
  C4, as the claim has it: the identity must be an integer. The code never tests for
  an integer: \<^verbatim>\<open>assertId\<close> accepts the number 1.5, and \<^verbatim>\<open>insert\<close> stores an item under it.
\<close>

theorem fractional_identity_accepted:
  "\<not> spec_valid_identity (JNumber (Fin (3 / 2)))
 \<and> assertId (JNumber (Fin (3 / 2))) = Inr (Fin (3 / 2))
 \<and> insert_item (arg (3 / 2) ''e'') \<lparr>items = []\<rparr> = (Inr (), \<lparr>items = [snap (3 / 2) ''e'']\<rparr>)"
proof -
  have "rat_of_int k * 2 \<noteq> 3" for k
  proof
    assume "rat_of_int k * 2 = 3"
    then have "rat_of_int (k * 2) = rat_of_int 3" by simp
    then have "k * 2 = 3" by (simp only: of_int_eq_iff)
    then show False by presburger
  qed
  then have "\<not> spec_valid_identity (JNumber (Fin (3 / 2)))"
    by (simp add: spec_valid_identity_def)
  then show ?thesis
    by (simp add: isNaN_def insert_item_def arg_def snap_def frozenClone_def narrow_def
        insertionIndex_def insertionIndex_from.simps at_index_def splice_in_def)
qed

text \<open>
  C4, amended. An identity is accepted exactly when it is of type number, is not NaN and
  is not below 1, that is when it is \<^verbatim>\<open>Infinity\<close> or a finite number \<open>q\<close> with \<open>1 \<le> q\<close>,
  integer or not. With any other value \<^verbatim>\<open>insert\<close>, \<^verbatim>\<open>update\<close>, \<^verbatim>\<open>findById\<close> and \<^verbatim>\<open>remove\<close>
  throw INVALID_ID whatever the catalog holds, and leave the catalog as it is.
\<close>

theorem identity_checked_first:
  "((\<exists>n. assertId v = Inr n) \<longleftrightarrow>
      typeof v = ''number'' \<and> (v = JNumber Infinity \<or> (\<exists>q. v = JNumber (Fin q) \<and> 1 \<le> q)))
 \<and> ((\<forall>n. assertId v \<noteq> Inr n) \<longrightarrow>
      findById v c = Inl (INVALID_ID v)
    \<and> remove_item v c = (Inl (INVALID_ID v), c)
    \<and> (item_id item = v \<longrightarrow>
         insert_item item c = (Inl (INVALID_ID v), c)
       \<and> update_item item c = (Inl (INVALID_ID v), c)))"
proof -
  have "typeof v = ''number''" if "\<exists>n. assertId v = Inr n"
    using that by (cases v) simp_all
  then have first: "(\<exists>n. assertId v = Inr n) \<longleftrightarrow>
      typeof v = ''number'' \<and> (v = JNumber Infinity \<or> (\<exists>q. v = JNumber (Fin q) \<and> 1 \<le> q))"
    using assertId_accepts [of v] by blast
  have second: "findById v c = Inl (INVALID_ID v)
    \<and> remove_item v c = (Inl (INVALID_ID v), c)
    \<and> (item_id item = v \<longrightarrow>
         insert_item item c = (Inl (INVALID_ID v), c)
       \<and> update_item item c = (Inl (INVALID_ID v), c))"
    if "\<forall>n. assertId v \<noteq> Inr n"
    using assertId_rejects [OF that]
    by (simp add: findById_def remove_item_def insert_item_def update_item_def)
  show ?thesis using first second by blast
qed

theorem identity_checked_first_witness:
  "(\<forall>n. assertId (JNumber (Fin (1 / 2))) \<noteq> Inr n)
 \<and> findById (JNumber (Fin (1 / 2))) \<lparr>items = [snap 2 ''b'']\<rparr> = Inl (INVALID_ID (JNumber (Fin (1 / 2))))
 \<and> remove_item (JNumber (Fin (1 / 2))) \<lparr>items = [snap 2 ''b'']\<rparr>
      = (Inl (INVALID_ID (JNumber (Fin (1 / 2)))), \<lparr>items = [snap 2 ''b'']\<rparr>)
 \<and> insert_item (arg (1 / 2) ''z'') \<lparr>items = [snap 2 ''b'']\<rparr>
      = (Inl (INVALID_ID (JNumber (Fin (1 / 2)))), \<lparr>items = [snap 2 ''b'']\<rparr>)
 \<and> update_item (arg (1 / 2) ''z'') \<lparr>items = [snap 2 ''b'']\<rparr>
      = (Inl (INVALID_ID (JNumber (Fin (1 / 2)))), \<lparr>items = [snap 2 ''b'']\<rparr>)"
proof -
  have no: "\<forall>n. assertId (JNumber (Fin (1 / 2))) \<noteq> Inr n"
    by (simp add: isNaN_def)
  show ?thesis
    using no identity_checked_first [of "JNumber (Fin (1 / 2))" "\<lparr>items = [snap 2 ''b'']\<rparr>" "arg (1 / 2) ''z''"]
    by (simp add: arg_def)
qed

text \<open>
  C6. A catalog that the constructor returned, after any run of \<^verbatim>\<open>insert\<close> calls (failed
  ones included): \<^verbatim>\<open>fetchAll\<close> returns the stored snapshots in strictly ascending order
  of identity, so no two of them share an identity; and an \<^verbatim>\<open>insert\<close> whose identity is
  that of a stored snapshot throws DUPLICATE_INSERT_ERROR and leaves the catalog as it
  is.
\<close>

theorem fetchAll_ascending:
  assumes "new_InMemoryCatalog init = Inr c0" and "c = insert_each its c0"
  shows "ascending (fetchAll c) \<and> distinct (map item_id (fetchAll c))
       \<and> (\<forall>x \<in> set (items c). \<forall>item. item_id item = JNumber (item_id x) \<longrightarrow>
            insert_item item c = (Inl (DUPLICATE_INSERT_ERROR (item_id x)), c))"
proof -
  have ok: "catalog_ok c"
    using assms new_InMemoryCatalog_ok insert_each_ok by blast
  then have "ascending (fetchAll c)" by (simp add: fetchAll_items catalog_ok_def)
  then show ?thesis using ok insert_item_duplicate ascending_distinct by blast
qed

theorem fetchAll_ascending_witness:
  "new_InMemoryCatalog (Some [arg 5 ''a'', arg 2 ''b'']) = Inr \<lparr>items = [snap 2 ''b'', snap 5 ''a'']\<rparr>
 \<and> fetchAll (insert_each [arg 3 ''c'', arg 5 ''d'', arg (3 / 2) ''e''] \<lparr>items = [snap 2 ''b'', snap 5 ''a'']\<rparr>)
      = [snap (3 / 2) ''e'', snap 2 ''b'', snap 3 ''c'', snap 5 ''a'']
 \<and> ascending [snap (3 / 2) ''e'', snap 2 ''b'', snap 3 ''c'', snap 5 ''a'']
 \<and> insert_item (arg 3 ''f'') \<lparr>items = [snap (3 / 2) ''e'', snap 2 ''b'', snap 3 ''c'', snap 5 ''a'']\<rparr>
      = (Inl (DUPLICATE_INSERT_ERROR (Fin 3)),
         \<lparr>items = [snap (3 / 2) ''e'', snap 2 ''b'', snap 3 ''c'', snap 5 ''a'']\<rparr>)"
proof -
  have built: "new_InMemoryCatalog (Some [arg 5 ''a'', arg 2 ''b''])
      = Inr \<lparr>items = [snap 2 ''b'', snap 5 ''a'']\<rparr>"
    by code_simp
  have run: "insert_each [arg 3 ''c'', arg 5 ''d'', arg (3 / 2) ''e''] \<lparr>items = [snap 2 ''b'', snap 5 ''a'']\<rparr>
      = \<lparr>items = [snap (3 / 2) ''e'', snap 2 ''b'', snap 3 ''c'', snap 5 ''a'']\<rparr>"
    by code_simp
  have id: "item_id (arg 3 ''f'') = JNumber (item_id (snap 3 ''c''))"
    by (simp add: arg_def snap_def)
  note all = fetchAll_ascending [OF built run [symmetric]]
  have asc: "ascending (fetchAll \<lparr>items = [snap (3 / 2) ''e'', snap 2 ''b'', snap 3 ''c'', snap 5 ''a'']\<rparr>)"
    using all by blast
  have dup: "insert_item (arg 3 ''f'') \<lparr>items = [snap (3 / 2) ''e'', snap 2 ''b'', snap 3 ''c'', snap 5 ''a'']\<rparr>
      = (Inl (DUPLICATE_INSERT_ERROR (Fin 3)),
         \<lparr>items = [snap (3 / 2) ''e'', snap 2 ''b'', snap 3 ''c'', snap 5 ''a'']\<rparr>)"
    using all [THEN conjunct2, THEN conjunct2, rule_format, of "snap 3 ''c''" "arg 3 ''f''"] id
    by simp (simp add: snap_def)
  show ?thesis
    unfolding run using built asc dup by (simp add: fetchAll_items)
qed


section \<open>InMemoryConfigManager: the single active record\<close>

lemma set_status_fields [simp]:
  "configs (set_status r s m) = configs m"
  "fakeConfigs (set_status r s m) = fakeConfigs m"
  "activeConfig (set_status r s m) = activeConfig m"
  "length (heap (set_status r s m)) = length (heap m)"
  by (simp_all add: set_status_def)

lemma set_status_version [simp]:
  "version (heap (set_status r s m) ! i) = version (heap m ! i)"
  by (cases "r < length (heap m)") (simp_all add: set_status_def nth_list_update list_update_beyond)

lemma set_status_status:
  "status (heap (set_status r s m) ! i) = (if i = r \<and> r < length (heap m) then s else status (heap m ! i))"
  by (cases "r < length (heap m)") (simp_all add: set_status_def nth_list_update list_update_beyond)

lemma set_status_other: "i \<noteq> r \<Longrightarrow> heap (set_status r s m) ! i = heap m ! i"
  by (simp add: set_status_def)

lemma assertVersion_Inr:
  "assertVersion ver = Inr v \<longleftrightarrow> ver = JNumber v \<and> v \<noteq> NaN \<and> \<not> js_lt v (Fin 0)"
  by (cases ver) (auto simp: isNaN_def)

lemma assertVersion_Inl: "assertVersion ver = Inl e \<Longrightarrow> e = INVALID_VERSION ver"
  by (cases ver) (auto split: if_splits)

lemma activate_found:
  assumes "assertVersion ver = Inr v" "map_of (configs m) v = Some r"
  shows "activate ver m =
     (let ac = (case activeVersion m of Some av \<Rightarrow> map_of (configs m) av | None \<Rightarrow> None)
      in if ac = Some r then (Inr (), m)
         else (let m1 = (case ac of Some a \<Rightarrow> set_status r ACTIVE (set_status a INACTIVE m)
                                   | None \<Rightarrow> set_status r ACTIVE m)
               in (Inr (), m1\<lparr>activeConfig := map_of (fakeConfigs m) (version (heap m ! r))\<rparr>)))"
  using assms by (simp add: activate_def Let_def split: option.splits)

lemma manager_ok_activate:
  assumes ok: "manager_ok m"
  shows "manager_ok (snd (activate ver m))"
proof (cases "assertVersion ver")
  case (Inl e)
  then show ?thesis using ok by (simp add: activate_def)
next
  case (Inr v)
  show ?thesis
  proof (cases "map_of (configs m) v")
    case None
    then show ?thesis using ok Inr by (simp add: activate_def)
  next
    case (Some r)
    have fk: "fakeConfigs m = configs m"
      and wf: "\<And>v r. map_of (configs m) v = Some r \<Longrightarrow> r < length (heap m) \<and> version (heap m ! r) = v"
      using ok by (auto simp: manager_ok_def)
    have rv: "r < length (heap m)" "version (heap m ! r) = v" using wf [OF Some] by auto
    show ?thesis
    proof (cases "activeConfig m")
      case None
      then have inactive: "\<And>v r. map_of (configs m) v = Some r \<Longrightarrow> status (heap m ! r) = INACTIVE"
        using ok by (auto simp: manager_ok_def)
      have res: "snd (activate ver m) = (set_status r ACTIVE m)\<lparr>activeConfig := Some r\<rparr>"
        using None Some rv fk by (simp add: activate_found [OF Inr Some] activeVersion_def)
      have other: "status (heap (set_status r ACTIVE m) ! r') = INACTIVE"
        if "map_of (configs m) v' = Some r'" "v' \<noteq> v" for v' r'
      proof -
        have "r' \<noteq> r" using wf [OF that(1)] rv that(2) by auto
        then show ?thesis using inactive [OF that(1)] by (simp add: set_status_status)
      qed
      show ?thesis
        unfolding res using ok Some rv wf other
        by (auto simp: manager_ok_def set_status_status)
    next
      case (Some a)
      define av where "av = version (heap m ! a)"
      obtain ra where ra: "map_of (configs m) av = Some ra" "status (heap m ! ra) = ACTIVE"
        and rest: "\<And>v r. map_of (configs m) v = Some r \<Longrightarrow> v \<noteq> av \<Longrightarrow> status (heap m ! r) = INACTIVE"
        using ok Some by (auto simp: manager_ok_def av_def)
      have rav: "ra < length (heap m)" "version (heap m ! ra) = av" using wf [OF ra(1)] by auto
      show ?thesis
      proof (cases "ra = r")
        case True
        then show ?thesis
          using ok Some ra by (simp add: activate_found [OF Inr \<open>map_of (configs m) v = Some r\<close>] activeVersion_def av_def)
      next
        case False
        have res: "snd (activate ver m) =
            (set_status r ACTIVE (set_status ra INACTIVE m))\<lparr>activeConfig := Some r\<rparr>"
          using Some ra False rv fk \<open>map_of (configs m) v = Some r\<close>
          by (simp add: activate_found [OF Inr \<open>map_of (configs m) v = Some r\<close>] activeVersion_def av_def)
        have other: "status (heap (set_status r ACTIVE (set_status ra INACTIVE m)) ! r') = INACTIVE"
          if "map_of (configs m) v' = Some r'" "v' \<noteq> v" for v' r'
        proof -
          have "r' \<noteq> r" using wf [OF that(1)] rv that(2) by auto
          moreover have "r' \<noteq> ra \<longrightarrow> status (heap m ! r') = INACTIVE"
            using rest [OF that(1)] ra(1) that(1) by (cases "v' = av") auto
          ultimately show ?thesis using rav by (simp add: set_status_status)
        qed
        show ?thesis
          unfolding res using ok \<open>map_of (configs m) v = Some r\<close> rv wf other
          by (auto simp: manager_ok_def set_status_status)
      qed
    qed
  qed
qed

lemma stored_fields [simp]:
  "heap (stored v s config m) = heap m @ [\<lparr>version = v, status = s, \<dots> = Config.more config\<rparr>]"
  "configs (stored v s config m) = AList.update v (length (heap m)) (configs m)"
  "fakeConfigs (stored v s config m) = AList.update v (length (heap m)) (fakeConfigs m)"
  "activeConfig (stored v s config m) = activeConfig m"
  by (simp_all add: stored_def)

lemma update_config_found:
  assumes "assertVersion (version c) = Inr v" "assertStatus (status c) = Inr s"
    "map_of (configs m) v = Some r"
  shows "update_config c m =
     (if s \<noteq> status (heap m ! r) then (Inl (IMMUTABLE_FIELD_UPDATE ''status''), m)
      else (Inr (), stored v s c m))"
  using assms by (simp add: update_config_def structuredClone_def stored_def Let_def)

lemma add_config_valid:
  assumes "assertVersion (version c) = Inr v" "assertStatus (status c) = Inr s"
  shows "add_config c m =
     (if s = ACTIVE \<and> activeConfig m \<noteq> None then (Inl ACTIVE_OVERWRITE, m)
      else if map_of (configs m) v = None
      then (if s = ACTIVE then activate (version c) (stored v s c m) else (Inr (), stored v s c m))
      else (Inl (DUPLICATE_VERSION v), m))"
  using assms by (auto simp: add_config_def structuredClone_def stored_def Let_def)

lemma stored_lookup:
  assumes "\<And>v r. map_of (configs m) v = Some r \<Longrightarrow> r < length (heap m) \<and> version (heap m ! r) = v"
    and "map_of (configs (stored v s c m)) v' = Some r'"
  shows "(v' = v \<and> r' = length (heap m) \<and> heap (stored v s c m) ! r' = \<lparr>version = v, status = s, \<dots> = Config.more c\<rparr>)
       \<or> (v' \<noteq> v \<and> map_of (configs m) v' = Some r' \<and> r' < length (heap m) \<and> heap (stored v s c m) ! r' = heap m ! r')"
  using assms by (cases "v' = v") (auto simp: update_conv' nth_append)

lemma manager_ok_stored_inactive:
  assumes ok: "manager_ok m"
    and new: "map_of (configs m) v = None \<or> (\<exists>r. map_of (configs m) v = Some r \<and> status (heap m ! r) = s)"
    and s: "s = INACTIVE \<or> (\<exists>r. map_of (configs m) v = Some r)"
  shows "manager_ok (stored v s c m)"
proof -
  have fk: "fakeConfigs m = configs m"
    and wf: "\<And>v r. map_of (configs m) v = Some r \<Longrightarrow> r < length (heap m) \<and> version (heap m ! r) = v"
    and dist: "distinct (map fst (configs m))"
    using ok by (auto simp: manager_ok_def)
  note look = stored_lookup [of m v s c, OF wf]
  have P1: "fakeConfigs (stored v s c m) = configs (stored v s c m)" using fk by simp
  have P2: "distinct (map fst (configs (stored v s c m)))" using dist by (simp add: distinct_update)
  have P3: "\<forall>v' r'. map_of (configs (stored v s c m)) v' = Some r' \<longrightarrow>
      r' < length (heap (stored v s c m)) \<and> version (heap (stored v s c m) ! r') = v'"
  proof (intro allI impI)
    fix v' r' assume a: "map_of (configs (stored v s c m)) v' = Some r'"
    show "r' < length (heap (stored v s c m)) \<and> version (heap (stored v s c m) ! r') = v'"
      using look [OF _ a] wf by (auto simp: nth_append)
  qed
  have P4: "case activeConfig (stored v s c m) of
         None \<Rightarrow> (\<forall>v' r. map_of (configs (stored v s c m)) v' = Some r \<longrightarrow> status (heap (stored v s c m) ! r) = INACTIVE)
       | Some a \<Rightarrow> a < length (heap (stored v s c m))
            \<and> (\<exists>r. map_of (configs (stored v s c m)) (version (heap (stored v s c m) ! a)) = Some r \<and> status (heap (stored v s c m) ! r) = ACTIVE)
            \<and> (\<forall>v' r. map_of (configs (stored v s c m)) v' = Some r \<longrightarrow> v' \<noteq> version (heap (stored v s c m) ! a) \<longrightarrow>
                  status (heap (stored v s c m) ! r) = INACTIVE)"
  proof (cases "activeConfig m")
    case None
    then have inactive: "\<And>v r. map_of (configs m) v = Some r \<Longrightarrow> status (heap m ! r) = INACTIVE"
      using ok by (auto simp: manager_ok_def)
    have "s = INACTIVE" using s new inactive by auto
    have "status (heap (stored v s c m) ! r') = INACTIVE"
      if a: "map_of (configs (stored v s c m)) v' = Some r'" for v' r'
      using look [OF _ a] wf inactive \<open>s = INACTIVE\<close> by auto
    then show ?thesis using None by simp
  next
    case (Some a)
    define av where "av = version (heap m ! a)"
    obtain ra where a: "a < length (heap m)"
      and ra: "map_of (configs m) av = Some ra" "status (heap m ! ra) = ACTIVE"
      and rest: "\<And>v r. map_of (configs m) v = Some r \<Longrightarrow> v \<noteq> av \<Longrightarrow> status (heap m ! r) = INACTIVE"
      using ok Some by (auto simp: manager_ok_def av_def)
    have rav: "ra < length (heap m)" using wf [OF ra(1)] by simp
    have av': "version (heap (stored v s c m) ! a) = av" using a by (simp add: nth_append av_def)
    have ex: "\<exists>r. map_of (configs (stored v s c m)) av = Some r \<and> status (heap (stored v s c m) ! r) = ACTIVE"
    proof (cases "av = v")
      case True
      then have "s = ACTIVE" using new ra by auto
      then show ?thesis using True by (simp add: update_conv')
    next
      case False
      then show ?thesis using ra rav by (simp add: update_conv' nth_append)
    qed
    have others: "status (heap (stored v s c m) ! r') = INACTIVE"
      if l: "map_of (configs (stored v s c m)) v' = Some r'" and ne: "v' \<noteq> av" for v' r'
    proof -
      from look [OF _ l] wf consider
        (new) "v' = v" "r' = length (heap m)" "heap (stored v s c m) ! r' = \<lparr>version = v, status = s, \<dots> = Config.more c\<rparr>"
        | (old) "v' \<noteq> v" "map_of (configs m) v' = Some r'" "heap (stored v s c m) ! r' = heap m ! r'"
        by blast
      then show ?thesis
      proof cases
        case new
        have "s = INACTIVE"
        proof (cases "map_of (configs m) v")
          case None
          then show ?thesis using s by simp
        next
          case (Some r0)
          then have "status (heap m ! r0) = INACTIVE" using rest ne new(1) by blast
          then show ?thesis using \<open>map_of (configs m) v = None \<or> (\<exists>r. map_of (configs m) v = Some r \<and> status (heap m ! r) = s)\<close> Some by auto
        qed
        then show ?thesis using new by simp
      next
        case old
        then show ?thesis using rest ne by simp
      qed
    qed
    show ?thesis using Some a ex [folded av'] others [folded av'] by simp
  qed
  show ?thesis unfolding manager_ok_def using P1 P2 P3 P4 by blast
qed

lemma manager_ok_update_config:
  assumes ok: "manager_ok m"
  shows "manager_ok (snd (update_config c m))"
proof (cases "assertVersion (version c)")
  case (Inl e)
  then show ?thesis using ok by (simp add: update_config_def)
next
  case v: (Inr v)
  show ?thesis
  proof (cases "assertStatus (status c)")
    case (Inl e)
    then show ?thesis using ok v by (simp add: update_config_def)
  next
    case s: (Inr s)
    show ?thesis
    proof (cases "map_of (configs m) v")
      case None
      then show ?thesis using ok v s by (simp add: update_config_def)
    next
      case (Some r)
      show ?thesis
      proof (cases "s = status (heap m ! r)")
        case True
        have "manager_ok (stored v s c m)"
          using ok Some True by (intro manager_ok_stored_inactive) auto
        then show ?thesis using True by (simp add: update_config_found [OF v s Some])
      next
        case False
        then show ?thesis using ok by (simp add: update_config_found [OF v s Some])
      qed
    qed
  qed
qed

lemma activate_stored_new:
  assumes v: "assertVersion ver = Inr v" and none: "activeConfig m = None"
  shows "activate ver (stored v s c m) =
     (Inr (), (stored v ACTIVE c m)\<lparr>activeConfig := Some (length (heap m))\<rparr>)"
proof -
  have look: "map_of (configs (stored v s c m)) v = Some (length (heap m))"
    by (simp add: update_conv')
  have "set_status (length (heap m)) ACTIVE (stored v s c m) = stored v ACTIVE c m"
    by (simp add: set_status_def stored_def)
  then show ?thesis
    using none by (simp add: activate_found [OF v look] activeVersion_def update_conv')
qed

lemma manager_ok_add_config:
  assumes ok: "manager_ok m"
  shows "manager_ok (snd (add_config c m))"
proof (cases "assertVersion (version c)")
  case (Inl e)
  then show ?thesis using ok by (simp add: add_config_def)
next
  case v: (Inr v)
  show ?thesis
  proof (cases "assertStatus (status c)")
    case (Inl e)
    then show ?thesis using ok v by (simp add: add_config_def)
  next
    case s: (Inr s)
    show ?thesis
    proof (cases "map_of (configs m) v = None \<and> (s = ACTIVE \<longrightarrow> activeConfig m = None)")
      case False
      then show ?thesis using ok by (auto simp: add_config_valid [OF v s])
    next
      case True
      have inactive: "manager_ok (stored v INACTIVE c m)"
        using ok True by (intro manager_ok_stored_inactive) auto
      show ?thesis
      proof (cases s)
        case INACTIVE
        then show ?thesis using True inactive by (simp add: add_config_valid [OF v s])
      next
        case ACTIVE
        then have none: "activeConfig m = None" using True by simp
        have "snd (add_config c m) = snd (activate (version c) (stored v INACTIVE c m))"
          using True ACTIVE by (simp add: add_config_valid [OF v s] activate_stored_new [OF v none])
        then show ?thesis using manager_ok_activate [OF inactive] by simp
      qed
    qed
  qed
qed

lemma manager_ok_remove_config:
  assumes ok: "manager_ok m"
  shows "manager_ok (snd (remove_config ver m))"
proof (cases "assertVersion ver")
  case (Inl e)
  then show ?thesis using ok by (simp add: remove_config_def)
next
  case v: (Inr v)
  show ?thesis
  proof (cases "map_of (configs m) v")
    case None
    then show ?thesis using ok v by (simp add: remove_config_def)
  next
    case (Some r)
    show ?thesis
    proof (cases "isActive (heap m ! r)")
      case True
      then show ?thesis using ok v Some by (simp add: remove_config_def)
    next
      case False
      define m' where "m' = m\<lparr>configs := AList.delete v (configs m), fakeConfigs := AList.delete v (fakeConfigs m)\<rparr>"
      have res: "snd (remove_config ver m) = m'"
        using v Some False by (simp add: remove_config_def m'_def)
      have look: "map_of (configs m') v' = Some r' \<longleftrightarrow> v' \<noteq> v \<and> map_of (configs m) v' = Some r'" for v' r'
        by (simp add: m'_def delete_conv')
      have inactive: "status (heap m ! r) = INACTIVE"
        using False by (cases "status (heap m ! r)") (simp_all add: isActive_def)
      have "manager_ok m'"
      proof (cases "activeConfig m")
        case None
        then show ?thesis
          using ok unfolding manager_ok_def look
          by (auto simp: m'_def distinct_delete)
      next
        case (Some a)
        then have "version (heap m ! a) \<noteq> v"
          using ok \<open>map_of (configs m) v = Some r\<close> inactive by (auto simp: manager_ok_def)
        then show ?thesis
          using ok Some unfolding manager_ok_def look
          by (auto simp: m'_def distinct_delete)
      qed
      then show ?thesis using res by simp
    qed
  qed
qed

lemma manager_ok_serve: "manager_ok m \<Longrightarrow> manager_ok (snd (serve rq m))"
  by (cases rq)
    (simp_all add: manager_ok_add_config manager_ok_update_config manager_ok_remove_config
      manager_ok_activate)

lemma manager_ok_serve_all: "manager_ok m \<Longrightarrow> manager_ok (serve_all rqs m)"
  by (induction rqs arbitrary: m) (simp_all add: manager_ok_serve)

lemma manager_ok_add_all: "manager_ok m \<Longrightarrow> add_all cs m = Inr m' \<Longrightarrow> manager_ok m'"
proof (induction cs arbitrary: m)
  case Nil
  then show ?case by simp
next
  case (Cons c cs)
  then show ?case using manager_ok_add_config [of m c]
    by (auto split: prod.splits sum.splits)
qed

lemma manager_ok_new: "new_InMemoryConfigManager init = Inr m \<Longrightarrow> manager_ok m"
proof -
  have "manager_ok \<lparr>heap = [], configs = [], fakeConfigs = [], activeConfig = None\<rparr>"
    by (simp add: manager_ok_def)
  then show "new_InMemoryConfigManager init = Inr m \<Longrightarrow> manager_ok m"
    using manager_ok_add_all by (auto simp: new_InMemoryConfigManager_def Let_def split: option.splits)
qed

lemma filter_at_most_one:
  assumes "distinct xs" "\<And>x y. x \<in> set xs \<Longrightarrow> y \<in> set xs \<Longrightarrow> P x \<Longrightarrow> P y \<Longrightarrow> x = y"
  shows "length (filter P xs) \<le> 1"
  using assms
proof (induction xs)
  case Nil
  then show ?case by simp
next
  case (Cons x xs)
  show ?case
  proof (cases "P x")
    case True
    have "filter P xs = []"
    proof (rule ccontr)
      assume "filter P xs \<noteq> []"
      then obtain y where "y \<in> set xs" "P y" by (auto simp: filter_empty_conv)
      then have "x = y" using Cons.prems(2) [of x y] True by simp
      then show False using Cons.prems(1) \<open>y \<in> set xs\<close> by simp
    qed
    then show ?thesis using True by simp
  next
    case False
    then show ?thesis using Cons by simp
  qed
qed

lemma count_active_le_one:
  assumes ok: "manager_ok m"
  shows "count_active m \<le> 1"
proof -
  have dist: "distinct (map fst (configs m))" using ok by (simp add: manager_ok_def)
  then have d: "distinct (configs m)" by (simp add: distinct_map)
  have same: "x = y"
    if "x \<in> set (configs m)" "y \<in> set (configs m)"
      "(\<lambda>(v, r). isActive (heap m ! r)) x" "(\<lambda>(v, r). isActive (heap m ! r)) y" for x y
  proof -
    obtain v r v' r' where xy: "x = (v, r)" "y = (v', r')" by (cases x, cases y) auto
    have l: "map_of (configs m) v = Some r" "map_of (configs m) v' = Some r'"
      using that(1,2) dist xy by simp_all
    have act: "status (heap m ! r) = ACTIVE" "status (heap m ! r') = ACTIVE"
      using that(3,4) xy by (simp_all add: isActive_def)
    show ?thesis
    proof (cases "activeConfig m")
      case None
      then show ?thesis using ok l act by (auto simp: manager_ok_def)
    next
      case (Some a)
      then have rest: "\<And>v r. map_of (configs m) v = Some r \<Longrightarrow> v \<noteq> version (heap m ! a) \<Longrightarrow>
          status (heap m ! r) = INACTIVE"
        using ok by (simp add: manager_ok_def)
      have "v = version (heap m ! a)"
        using rest [OF l(1)] act(1) by (cases "v = version (heap m ! a)") auto
      moreover have "v' = version (heap m ! a)"
        using rest [OF l(2)] act(2) by (cases "v' = version (heap m ! a)") auto
      ultimately show ?thesis using l xy by simp
    qed
  qed
  show ?thesis unfolding count_active_def using d same by (rule filter_at_most_one)
qed

lemma manager_ok_reachable:
  "new_InMemoryConfigManager init = Inr m0 \<Longrightarrow> m = serve_all rqs m0 \<Longrightarrow> manager_ok m"
  using manager_ok_new manager_ok_serve_all by blast

lemma manager_ok_active:
  assumes "manager_ok m" "activeVersion m = Some av"
  shows "\<exists>ra. map_of (configs m) av = Some ra \<and> status (heap m ! ra) = ACTIVE"
  using assms by (auto simp: manager_ok_def activeVersion_def split: option.splits)

lemma manager_ok_statuses:
  assumes "manager_ok m" "map_of (configs m) v = Some r"
  shows "status (heap m ! r) = ACTIVE \<longleftrightarrow> activeVersion m = Some v"
proof (cases "activeConfig m")
  case None
  then show ?thesis using assms by (auto simp: manager_ok_def activeVersion_def)
next
  case (Some a)
  then obtain ra where ra: "map_of (configs m) (version (heap m ! a)) = Some ra" "status (heap m ! ra) = ACTIVE"
    and rest: "\<And>v r. map_of (configs m) v = Some r \<Longrightarrow> v \<noteq> version (heap m ! a) \<Longrightarrow> status (heap m ! r) = INACTIVE"
    using assms(1) by (auto simp: manager_ok_def)
  show ?thesis
  proof (cases "v = version (heap m ! a)")
    case True
    then show ?thesis using ra assms(2) Some by (simp add: activeVersion_def)
  next
    case False
    then show ?thesis using rest [OF assms(2)] Some by (simp add: activeVersion_def)
  qed
qed

lemma activate_cases:
  assumes ok: "manager_ok m" and v: "assertVersion ver = Inr v"
  shows "(map_of (configs m) v = None \<longrightarrow> activate ver m = (Inl (NO_CONFIG v), m))
    \<and> (activeVersion m = Some v \<longrightarrow> activate ver m = (Inr (), m))
    \<and> (\<forall>r. map_of (configs m) v = Some r \<longrightarrow> activeVersion m \<noteq> Some v \<longrightarrow>
         (\<exists>m'. activate ver m = (Inr (), m')
            \<and> configs m' = configs m \<and> fakeConfigs m' = fakeConfigs m
            \<and> length (heap m') = length (heap m)
            \<and> heap m' ! r = (heap m ! r)\<lparr>status := ACTIVE\<rparr>
            \<and> (\<forall>av ra. activeVersion m = Some av \<longrightarrow> map_of (configs m) av = Some ra \<longrightarrow>
                  heap m' ! ra = (heap m ! ra)\<lparr>status := INACTIVE\<rparr>)
            \<and> (\<forall>v' r'. map_of (configs m) v' = Some r' \<longrightarrow> v' \<noteq> v \<longrightarrow> activeVersion m \<noteq> Some v' \<longrightarrow>
                  heap m' ! r' = heap m ! r')
            \<and> (\<forall>v' r'. map_of (configs m') v' = Some r' \<longrightarrow>
                  (status (heap m' ! r') = ACTIVE \<longleftrightarrow> v' = v))
            \<and> activeConfig m' = map_of (fakeConfigs m') v
            \<and> activeConfig m' = Some r
            \<and> activeVersion m' = Some v))"
proof (intro conjI allI impI)
  assume "map_of (configs m) v = None"
  then show "activate ver m = (Inl (NO_CONFIG v), m)" using v by (simp add: activate_def)
next
  assume av: "activeVersion m = Some v"
  then obtain ra where ra: "map_of (configs m) v = Some ra" using manager_ok_active [OF ok] by blast
  show "activate ver m = (Inr (), m)"
    using av ra by (simp add: activate_found [OF v ra])
next
  fix r assume r: "map_of (configs m) v = Some r" and nv: "activeVersion m \<noteq> Some v"
  have fk: "fakeConfigs m = configs m"
    and wf: "\<And>v r. map_of (configs m) v = Some r \<Longrightarrow> r < length (heap m) \<and> version (heap m ! r) = v"
    using ok by (auto simp: manager_ok_def)
  have rv: "r < length (heap m)" "version (heap m ! r) = v" using wf [OF r] by auto
  define ac where "ac = (case activeVersion m of Some av \<Rightarrow> map_of (configs m) av | None \<Rightarrow> None)"
  define m1 where "m1 = (case ac of Some a \<Rightarrow> set_status r ACTIVE (set_status a INACTIVE m)
                                   | None \<Rightarrow> set_status r ACTIVE m)"
  define m' where "m' = m1\<lparr>activeConfig := Some r\<rparr>"
  have ne: "ac \<noteq> Some r"
  proof
    assume "ac = Some r"
    then obtain av where "activeVersion m = Some av" "map_of (configs m) av = Some r"
      by (auto simp: ac_def split: option.splits)
    then show False using wf [of av r] rv nv by simp
  qed
  have res: "activate ver m = (Inr (), m')"
    using ne r rv fk by (simp add: activate_found [OF v r] ac_def [symmetric] m1_def [symmetric] m'_def Let_def)
  have ok': "manager_ok m'" using manager_ok_activate [OF ok, of ver] res by simp
  have same: "configs m' = configs m" "fakeConfigs m' = fakeConfigs m" "length (heap m') = length (heap m)"
    by (simp_all add: m'_def m1_def split: option.splits)
  have hr: "heap m' ! r = (heap m ! r)\<lparr>status := ACTIVE\<rparr>"
  proof (cases ac)
    case None
    then show ?thesis using rv by (simp add: m'_def m1_def set_status_def)
  next
    case (Some a)
    then have "a \<noteq> r" using ne by simp
    then show ?thesis using Some rv by (simp add: m'_def m1_def set_status_def)
  qed
  have hra: "heap m' ! ra = (heap m ! ra)\<lparr>status := INACTIVE\<rparr>"
    if "activeVersion m = Some av" "map_of (configs m) av = Some ra" for av ra
  proof -
    have "ac = Some ra" using that by (simp add: ac_def)
    moreover have "ra \<noteq> r" using ne \<open>ac = Some ra\<close> by simp
    moreover have "ra < length (heap m)" using wf [OF that(2)] by simp
    ultimately show ?thesis by (simp add: m'_def m1_def set_status_def)
  qed
  have hother: "heap m' ! r' = heap m ! r'"
    if "map_of (configs m) v' = Some r'" "v' \<noteq> v" "activeVersion m \<noteq> Some v'" for v' r'
  proof -
    have "r' \<noteq> r" using wf [OF that(1)] rv that(2) by auto
    moreover have "ac \<noteq> Some r'"
    proof
      assume "ac = Some r'"
      then obtain av where "activeVersion m = Some av" "map_of (configs m) av = Some r'"
        by (auto simp: ac_def split: option.splits)
      then show False using wf [of av r'] wf [OF that(1)] that(3) by simp
    qed
    ultimately show ?thesis
      by (cases ac) (simp_all add: m'_def m1_def set_status_other)
  qed
  have act: "activeConfig m' = Some r" by (simp add: m'_def)
  have av': "activeVersion m' = Some v"
    using rv hr by (simp add: activeVersion_def act)
  have only: "status (heap m' ! r') = ACTIVE \<longleftrightarrow> v' = v"
    if "map_of (configs m') v' = Some r'" for v' r'
    using manager_ok_statuses [OF ok' that] av' by auto
  show "\<exists>m'. activate ver m = (Inr (), m')
            \<and> configs m' = configs m \<and> fakeConfigs m' = fakeConfigs m
            \<and> length (heap m') = length (heap m)
            \<and> heap m' ! r = (heap m ! r)\<lparr>status := ACTIVE\<rparr>
            \<and> (\<forall>av ra. activeVersion m = Some av \<longrightarrow> map_of (configs m) av = Some ra \<longrightarrow>
                  heap m' ! ra = (heap m ! ra)\<lparr>status := INACTIVE\<rparr>)
            \<and> (\<forall>v' r'. map_of (configs m) v' = Some r' \<longrightarrow> v' \<noteq> v \<longrightarrow> activeVersion m \<noteq> Some v' \<longrightarrow>
                  heap m' ! r' = heap m ! r')
            \<and> (\<forall>v' r'. map_of (configs m') v' = Some r' \<longrightarrow>
                  (status (heap m' ! r') = ACTIVE \<longleftrightarrow> v' = v))
            \<and> activeConfig m' = map_of (fakeConfigs m') v
            \<and> activeConfig m' = Some r
            \<and> activeVersion m' = Some v"
    using res same hr hra hother only act av' r fk
    by (intro exI [of _ m']) (simp add: same)
qed

lemma length_delete_present:
  "distinct (map fst al) \<Longrightarrow> map_of al k = Some x \<Longrightarrow> length (AList.delete k al) + 1 = length al"
proof (induction al)
  case Nil
  then show ?case by simp
next
  case (Cons p al)
  show ?case
  proof (cases "fst p = k")
    case True
    then have "k \<notin> fst ` set al" using Cons.prems(1) by auto
    then have "AList.delete k al = al" by simp
    then show ?thesis using True by (cases p) simp
  next
    case False
    then show ?thesis using Cons by (cases p) auto
  qed
qed

lemma remove_config_cases:
  assumes ok: "manager_ok m" and v: "assertVersion ver = Inr v"
  shows "(map_of (configs m) v = None \<longrightarrow> remove_config ver m = (Inr (), m))
    \<and> (\<forall>r. map_of (configs m) v = Some r \<longrightarrow> isActive (heap m ! r) \<longrightarrow>
         remove_config ver m = (Inl (REMOVING_ACTIVE_CONFIG v), m))
    \<and> (activeVersion m = Some v \<longrightarrow> remove_config ver m = (Inl (REMOVING_ACTIVE_CONFIG v), m))
    \<and> (\<forall>r. map_of (configs m) v = Some r \<longrightarrow> \<not> isActive (heap m ! r) \<longrightarrow>
         (\<exists>m'. remove_config ver m = (Inr (), m')
            \<and> map_of (configs m') = (map_of (configs m))(v := None)
            \<and> map_of (fakeConfigs m') = (map_of (fakeConfigs m))(v := None)
            \<and> size_configs m' + 1 = size_configs m
            \<and> length (fakeConfigs m') + 1 = length (fakeConfigs m)
            \<and> heap m' = heap m \<and> activeConfig m' = activeConfig m))"
proof (intro conjI allI impI)
  assume "map_of (configs m) v = None"
  then show "remove_config ver m = (Inr (), m)" using v by (simp add: remove_config_def)
next
  fix r assume "map_of (configs m) v = Some r" "isActive (heap m ! r)"
  then show "remove_config ver m = (Inl (REMOVING_ACTIVE_CONFIG v), m)"
    using v by (simp add: remove_config_def)
next
  assume "activeVersion m = Some v"
  then obtain ra where "map_of (configs m) v = Some ra" "status (heap m ! ra) = ACTIVE"
    using manager_ok_active [OF ok] by blast
  then show "remove_config ver m = (Inl (REMOVING_ACTIVE_CONFIG v), m)"
    using v by (simp add: remove_config_def isActive_def)
next
  fix r assume r: "map_of (configs m) v = Some r" and na: "\<not> isActive (heap m ! r)"
  have fk: "fakeConfigs m = configs m" and dist: "distinct (map fst (configs m))"
    using ok by (auto simp: manager_ok_def)
  define m' where "m' = m\<lparr>configs := AList.delete v (configs m), fakeConfigs := AList.delete v (fakeConfigs m)\<rparr>"
  have res: "remove_config ver m = (Inr (), m')"
    using v r na by (simp add: remove_config_def m'_def)
  have len: "length (AList.delete v (configs m)) + 1 = length (configs m)"
    using dist r by (rule length_delete_present)
  show "\<exists>m'. remove_config ver m = (Inr (), m')
            \<and> map_of (configs m') = (map_of (configs m))(v := None)
            \<and> map_of (fakeConfigs m') = (map_of (fakeConfigs m))(v := None)
            \<and> size_configs m' + 1 = size_configs m
            \<and> length (fakeConfigs m') + 1 = length (fakeConfigs m)
            \<and> heap m' = heap m \<and> activeConfig m' = activeConfig m"
    using res len fk
    by (intro exI [of _ m']) (simp add: m'_def size_configs_def delete_conv')
qed

lemma get_config_truthy:
  assumes "assertVersion ver = Inr v" "v \<noteq> Fin 0"
  shows "get_config ver m = Inr (map_of (fakeConfigs m) v)"
  using assms by (cases ver) (auto simp: get_config_def isNaN_def split: if_splits)

lemma update_config_cases:
  assumes ok: "manager_ok m"
    and v: "assertVersion (version c) = Inr v" and s: "assertStatus (status c) = Inr s"
  shows "(map_of (configs m) v = None \<longrightarrow> update_config c m = (Inr (), m))
    \<and> (\<forall>r. map_of (configs m) v = Some r \<longrightarrow> s \<noteq> status (heap m ! r) \<longrightarrow>
         update_config c m = (Inl (IMMUTABLE_FIELD_UPDATE ''status''), m))
    \<and> (\<forall>r. map_of (configs m) v = Some r \<longrightarrow> s = status (heap m ! r) \<longrightarrow>
         (\<exists>m' r'. update_config c m = (Inr (), m')
            \<and> map_of (configs m') = (map_of (configs m))(v \<mapsto> r')
            \<and> map_of (fakeConfigs m') = (map_of (fakeConfigs m))(v \<mapsto> r')
            \<and> heap m' ! r' = \<lparr>version = v, status = status (heap m ! r), \<dots> = Config.more c\<rparr>
            \<and> activeConfig m' = activeConfig m
            \<and> (v \<noteq> Fin 0 \<longrightarrow> get_config (version c) m' = Inr (Some r'))))"
proof (intro conjI allI impI)
  assume "map_of (configs m) v = None"
  then show "update_config c m = (Inr (), m)" using v s by (simp add: update_config_def)
next
  fix r assume "map_of (configs m) v = Some r" "s \<noteq> status (heap m ! r)"
  then show "update_config c m = (Inl (IMMUTABLE_FIELD_UPDATE ''status''), m)"
    by (simp add: update_config_found [OF v s])
next
  fix r assume r: "map_of (configs m) v = Some r" and eq: "s = status (heap m ! r)"
  have res: "update_config c m = (Inr (), stored v s c m)"
    using eq by (simp add: update_config_found [OF v s r])
  have g: "v \<noteq> Fin 0 \<longrightarrow> get_config (version c) (stored v s c m) = Inr (Some (length (heap m)))"
    by (simp add: get_config_truthy [OF v] update_conv')
  show "\<exists>m' r'. update_config c m = (Inr (), m')
            \<and> map_of (configs m') = (map_of (configs m))(v \<mapsto> r')
            \<and> map_of (fakeConfigs m') = (map_of (fakeConfigs m))(v \<mapsto> r')
            \<and> heap m' ! r' = \<lparr>version = v, status = status (heap m ! r), \<dots> = Config.more c\<rparr>
            \<and> activeConfig m' = activeConfig m
            \<and> (v \<noteq> Fin 0 \<longrightarrow> get_config (version c) m' = Inr (Some r'))"
    using res g eq
    by (intro exI [of _ "stored v s c m"] exI [of _ "length (heap m)"]) (simp add: update_conv')
qed


section \<open>InMemoryConfigManager: the claims\<close>

lemma one_config_built:
  "new_InMemoryConfigManager (Some [cfg 1 1 ''a'']) = Inr one_config"
  by code_simp

lemma two_configs_run: "two_configs = serve_all [Add (cfg 2 0 ''b'')] one_config"
  by code_simp

lemma assertVersion_Fin: "0 \<le> q \<Longrightarrow> assertVersion (JNumber (Fin q)) = Inr (Fin q)"
  by (simp add: isNaN_def)

text \<open>
  C1. A manager that the constructor returned, after any run of \<^verbatim>\<open>add\<close>, \<^verbatim>\<open>update\<close>,
  \<^verbatim>\<open>remove\<close> and \<^verbatim>\<open>activate\<close> calls, each run to its end whether it returns or throws: at
  most one stored record has status ACTIVE.
\<close>

theorem at_most_one_active:
  assumes "new_InMemoryConfigManager init = Inr m0"
  shows "count_active (serve_all rqs m0) \<le> 1"
  using assms manager_ok_new manager_ok_serve_all count_active_le_one by blast

theorem at_most_one_active_witness:
  "new_InMemoryConfigManager (Some [cfg 1 1 ''a'']) = Inr one_config
 \<and> count_active (serve_all
      [Add (cfg 2 0 ''b''), Add (cfg 3 1 ''c''), Activate (JNumber (Fin 2)), Update (cfg 2 1 ''b2''),
       Remove (JNumber (Fin 1)), Activate (JNumber (Fin 9)), Remove (JNumber (Fin 2))]
      one_config) \<le> 1"
  using one_config_built
    at_most_one_active [OF one_config_built, of
      "[Add (cfg 2 0 ''b''), Add (cfg 3 1 ''c''), Activate (JNumber (Fin 2)), Update (cfg 2 1 ''b2''),
        Remove (JNumber (Fin 1)), Activate (JNumber (Fin 9)), Remove (JNumber (Fin 2))]"]
  by (rule conjI)

text \<open>
  C5. A manager reached from the constructor. A version that \<^verbatim>\<open>assertVersion\<close> rejects
  makes \<^verbatim>\<open>activate\<close> throw INVALID_VERSION, the manager as before. For a version \<open>ver\<close>
  that it accepts as \<open>v\<close>: when no record is stored under \<open>v\<close>, \<^verbatim>\<open>activate\<close> throws NO_CONFIG
  and the manager (pointer, maps and every record) is as before. When \<open>v\<close> is the active
  version it returns and the manager is as before. Otherwise it returns, and in the
  manager it leaves: the record stored under \<open>v\<close> is the old one with status ACTIVE; the
  record stored under the version that was active, if there was one, is the old one
  with status INACTIVE; every other stored record is untouched; the maps are the same;
  the stored records with status ACTIVE are exactly the one under \<open>v\<close>; and the active
  pointer is the frozen view stored under \<open>v\<close>.
\<close>

theorem activate_swaps:
  assumes "new_InMemoryConfigManager init = Inr m0" and "m = serve_all rqs m0"
  shows "(\<forall>e. assertVersion ver = Inl e \<longrightarrow> activate ver m = (Inl (INVALID_VERSION ver), m))
    \<and> (\<forall>v. assertVersion ver = Inr v \<longrightarrow>
         (map_of (configs m) v = None \<longrightarrow> activate ver m = (Inl (NO_CONFIG v), m))
       \<and> (activeVersion m = Some v \<longrightarrow> activate ver m = (Inr (), m))
       \<and> (\<forall>r. map_of (configs m) v = Some r \<longrightarrow> activeVersion m \<noteq> Some v \<longrightarrow>
            (\<exists>m'. activate ver m = (Inr (), m')
               \<and> configs m' = configs m \<and> fakeConfigs m' = fakeConfigs m
               \<and> length (heap m') = length (heap m)
               \<and> heap m' ! r = (heap m ! r)\<lparr>status := ACTIVE\<rparr>
               \<and> (\<forall>av ra. activeVersion m = Some av \<longrightarrow> map_of (configs m) av = Some ra \<longrightarrow>
                     heap m' ! ra = (heap m ! ra)\<lparr>status := INACTIVE\<rparr>)
               \<and> (\<forall>v' r'. map_of (configs m) v' = Some r' \<longrightarrow> v' \<noteq> v \<longrightarrow>
                     activeVersion m \<noteq> Some v' \<longrightarrow> heap m' ! r' = heap m ! r')
               \<and> (\<forall>v' r'. map_of (configs m') v' = Some r' \<longrightarrow>
                     (status (heap m' ! r') = ACTIVE \<longleftrightarrow> v' = v))
               \<and> activeConfig m' = map_of (fakeConfigs m') v
               \<and> activeConfig m' = Some r
               \<and> activeVersion m' = Some v)))"
proof (intro conjI allI impI)
  fix e assume "assertVersion ver = Inl e"
  then show "activate ver m = (Inl (INVALID_VERSION ver), m)"
    using assertVersion_Inl [of ver e] by (simp add: activate_def)
next
  fix v assume v: "assertVersion ver = Inr v"
  note cases = activate_cases [OF manager_ok_reachable [OF assms] v]
  show "map_of (configs m) v = None \<Longrightarrow> activate ver m = (Inl (NO_CONFIG v), m)"
    using cases by blast
  show "activeVersion m = Some v \<Longrightarrow> activate ver m = (Inr (), m)"
    using cases by blast
  show "\<exists>m'. activate ver m = (Inr (), m')
               \<and> configs m' = configs m \<and> fakeConfigs m' = fakeConfigs m
               \<and> length (heap m') = length (heap m)
               \<and> heap m' ! r = (heap m ! r)\<lparr>status := ACTIVE\<rparr>
               \<and> (\<forall>av ra. activeVersion m = Some av \<longrightarrow> map_of (configs m) av = Some ra \<longrightarrow>
                     heap m' ! ra = (heap m ! ra)\<lparr>status := INACTIVE\<rparr>)
               \<and> (\<forall>v' r'. map_of (configs m) v' = Some r' \<longrightarrow> v' \<noteq> v \<longrightarrow>
                     activeVersion m \<noteq> Some v' \<longrightarrow> heap m' ! r' = heap m ! r')
               \<and> (\<forall>v' r'. map_of (configs m') v' = Some r' \<longrightarrow>
                     (status (heap m' ! r') = ACTIVE \<longleftrightarrow> v' = v))
               \<and> activeConfig m' = map_of (fakeConfigs m') v
               \<and> activeConfig m' = Some r
               \<and> activeVersion m' = Some v"
    if "map_of (configs m) v = Some r" "activeVersion m \<noteq> Some v" for r
    using cases [THEN conjunct2, THEN conjunct2, rule_format, OF that] .
qed

theorem activate_swaps_witness:
  "new_InMemoryConfigManager (Some [cfg 1 1 ''a'']) = Inr one_config
 \<and> two_configs = serve_all [Add (cfg 2 0 ''b'')] one_config
 \<and> assertVersion (JNumber (Fin (- 3))) = Inl (INVALID_VERSION (JNumber (Fin (- 3))))
 \<and> activate (JNumber (Fin (- 3))) two_configs = (Inl (INVALID_VERSION (JNumber (Fin (- 3)))), two_configs)
 \<and> assertVersion (JNumber (Fin 7)) = Inr (Fin 7)
 \<and> map_of (configs two_configs) (Fin 7) = None
 \<and> activate (JNumber (Fin 7)) two_configs = (Inl (NO_CONFIG (Fin 7)), two_configs)
 \<and> activeVersion two_configs = Some (Fin 1)
 \<and> activate (JNumber (Fin 1)) two_configs = (Inr (), two_configs)
 \<and> map_of (configs two_configs) (Fin 2) = Some 1
 \<and> activate (JNumber (Fin 2)) two_configs
      = (Inr (), manager_of [rec 1 INACTIVE ''a'', rec 2 ACTIVE ''b''] [(1, 0), (2, 1)] (Some 1))"
proof -
  have none: "map_of (configs two_configs) (Fin 7) = None"
    and act: "activeVersion two_configs = Some (Fin 1)"
    and two: "map_of (configs two_configs) (Fin 2) = Some 1"
    by (simp_all add: two_configs_def manager_of_def activeVersion_def rec_def)
  have bad: "assertVersion (JNumber (Fin (- 3))) = Inl (INVALID_VERSION (JNumber (Fin (- 3))))"
    by (simp add: isNaN_def)
  have "activate (JNumber (Fin (- 3))) two_configs
      = (Inl (INVALID_VERSION (JNumber (Fin (- 3)))), two_configs)"
    using activate_swaps [OF one_config_built two_configs_run, of "JNumber (Fin (- 3))"] bad
    by blast
  moreover have "activate (JNumber (Fin 7)) two_configs = (Inl (NO_CONFIG (Fin 7)), two_configs)"
    using activate_swaps [OF one_config_built two_configs_run, of "JNumber (Fin 7)"]
      assertVersion_Fin [of 7] none
    by simp
  moreover have "activate (JNumber (Fin 1)) two_configs = (Inr (), two_configs)"
    using activate_swaps [OF one_config_built two_configs_run, of "JNumber (Fin 1)"]
      assertVersion_Fin [of 1] act
    by simp
  moreover have "activate (JNumber (Fin 2)) two_configs
      = (Inr (), manager_of [rec 1 INACTIVE ''a'', rec 2 ACTIVE ''b''] [(1, 0), (2, 1)] (Some 1))"
    by code_simp
  ultimately show ?thesis
    using one_config_built two_configs_run none act two bad assertVersion_Fin [of 7] by simp
qed

text \<open>
  C9. A manager reached from the constructor, and a version \<open>ver\<close> that \<^verbatim>\<open>assertVersion\<close>
  accepts as \<open>v\<close>. When no record is stored under \<open>v\<close>, \<^verbatim>\<open>remove\<close> returns and the manager is
  as before. When the record stored under \<open>v\<close> is ACTIVE (which is the case when \<open>v\<close> is the
  active version), it throws REMOVING_ACTIVE_CONFIG and the manager is as before.
  Otherwise it returns, the entry under \<open>v\<close> is gone from the canonical and from the frozen
  map, every other entry is kept, and the size is one less.
\<close>

theorem remove_active_forbidden:
  assumes "new_InMemoryConfigManager init = Inr m0" and "m = serve_all rqs m0"
    and "assertVersion ver = Inr v"
  shows "(map_of (configs m) v = None \<longrightarrow> remove_config ver m = (Inr (), m))
    \<and> (\<forall>r. map_of (configs m) v = Some r \<longrightarrow> isActive (heap m ! r) \<longrightarrow>
         remove_config ver m = (Inl (REMOVING_ACTIVE_CONFIG v), m))
    \<and> (activeVersion m = Some v \<longrightarrow> remove_config ver m = (Inl (REMOVING_ACTIVE_CONFIG v), m))
    \<and> (\<forall>r. map_of (configs m) v = Some r \<longrightarrow> \<not> isActive (heap m ! r) \<longrightarrow>
         (\<exists>m'. remove_config ver m = (Inr (), m')
            \<and> map_of (configs m') = (map_of (configs m))(v := None)
            \<and> map_of (fakeConfigs m') = (map_of (fakeConfigs m))(v := None)
            \<and> size_configs m' + 1 = size_configs m
            \<and> length (fakeConfigs m') + 1 = length (fakeConfigs m)
            \<and> heap m' = heap m \<and> activeConfig m' = activeConfig m))"
  using remove_config_cases [OF manager_ok_reachable [OF assms(1,2)] assms(3)] .

theorem remove_active_forbidden_witness:
  "new_InMemoryConfigManager (Some [cfg 1 1 ''a'']) = Inr one_config
 \<and> two_configs = serve_all [Add (cfg 2 0 ''b'')] one_config
 \<and> assertVersion (JNumber (Fin 1)) = Inr (Fin 1)
 \<and> map_of (configs two_configs) (Fin 7) = None
 \<and> remove_config (JNumber (Fin 7)) two_configs = (Inr (), two_configs)
 \<and> map_of (configs two_configs) (Fin 1) = Some 0 \<and> isActive (heap two_configs ! 0)
 \<and> remove_config (JNumber (Fin 1)) two_configs = (Inl (REMOVING_ACTIVE_CONFIG (Fin 1)), two_configs)
 \<and> map_of (configs two_configs) (Fin 2) = Some 1 \<and> \<not> isActive (heap two_configs ! 1)
 \<and> remove_config (JNumber (Fin 2)) two_configs
      = (Inr (), manager_of [rec 1 ACTIVE ''a'', rec 2 INACTIVE ''b''] [(1, 0)] (Some 0))
 \<and> size_configs two_configs = 2
 \<and> size_configs (manager_of [rec 1 ACTIVE ''a'', rec 2 INACTIVE ''b''] [(1, 0)] (Some 0)) = 1"
proof -
  have facts: "map_of (configs two_configs) (Fin 7) = None"
    "map_of (configs two_configs) (Fin 1) = Some 0" "isActive (heap two_configs ! 0)"
    "map_of (configs two_configs) (Fin 2) = Some 1" "\<not> isActive (heap two_configs ! 1)"
    "size_configs two_configs = 2"
    "size_configs (manager_of [rec 1 ACTIVE ''a'', rec 2 INACTIVE ''b''] [(1, 0)] (Some 0)) = 1"
    by (simp_all add: two_configs_def manager_of_def isActive_def rec_def size_configs_def)
  have "remove_config (JNumber (Fin 7)) two_configs = (Inr (), two_configs)"
    using remove_active_forbidden [OF one_config_built two_configs_run assertVersion_Fin [of 7]] facts(1)
    by simp
  moreover have "remove_config (JNumber (Fin 1)) two_configs
      = (Inl (REMOVING_ACTIVE_CONFIG (Fin 1)), two_configs)"
    using remove_active_forbidden [OF one_config_built two_configs_run assertVersion_Fin [of 1]] facts(2,3)
    by simp
  moreover have "remove_config (JNumber (Fin 2)) two_configs
      = (Inr (), manager_of [rec 1 ACTIVE ''a'', rec 2 INACTIVE ''b''] [(1, 0)] (Some 0))"
    by code_simp
  ultimately show ?thesis
    using one_config_built two_configs_run facts assertVersion_Fin [of 1] by simp
qed

text \<open>
  C2. \<^verbatim>\<open>get(version)\<close> should return the frozen view stored under that version for every
  accepted version, version 0 included. For an accepted version other than 0 it does
  (lemma \<open>get_config_truthy\<close>). The method tells "no argument" from "a version" with
  \<^verbatim>\<open>if(version)\<close>, and 0 is falsy: \<^verbatim>\<open>get(0)\<close> takes the branch of \<^verbatim>\<open>get()\<close>. In a manager
  that stores version 0 (INACTIVE) and version 1 (ACTIVE), \<^verbatim>\<open>get(0)\<close> returns the view of
  version 1; in a manager that stores only version 0 (INACTIVE) it returns undefined.
\<close>

theorem get_version_zero:
  "new_InMemoryConfigManager (Some [cfg 0 0 ''z'', cfg 1 1 ''a'']) = Inr zero_and_one
 \<and> assertVersion (JNumber (Fin 0)) = Inr (Fin 0)
 \<and> map_of (fakeConfigs zero_and_one) (Fin 0) = Some 0
 \<and> get_config (JNumber (Fin 0)) zero_and_one = Inr (Some 1)
 \<and> heap zero_and_one ! 1 = rec 1 ACTIVE ''a''
 \<and> new_InMemoryConfigManager (Some [cfg 0 0 ''z''])
      = Inr (manager_of [rec 0 INACTIVE ''z''] [(0, 0)] None)
 \<and> get_config (JNumber (Fin 0)) (manager_of [rec 0 INACTIVE ''z''] [(0, 0)] None) = Inr None"
proof -
  have "new_InMemoryConfigManager (Some [cfg 0 0 ''z'', cfg 1 1 ''a'']) = Inr zero_and_one"
    by code_simp
  moreover have "new_InMemoryConfigManager (Some [cfg 0 0 ''z''])
      = Inr (manager_of [rec 0 INACTIVE ''z''] [(0, 0)] None)"
    by code_simp
  ultimately show ?thesis
    by (simp add: zero_and_one_def manager_of_def get_config_def rec_def isNaN_def)
qed

text \<open>
  C7. \<^verbatim>\<open>update\<close> with an accepted version and status returns without a change when the
  version is not stored, throws IMMUTABLE_FIELD_UPDATE without a change when the status
  differs from the stored one, and otherwise stores a fresh clone, with the stored
  status, under the version in both maps; a later \<^verbatim>\<open>get\<close> of a version other than 0
  returns its view (lemma \<open>update_config_cases\<close>). For version 0 the later \<^verbatim>\<open>get\<close> does
  not: in the manager that stores version 0 (INACTIVE) and version 1 (ACTIVE), the
  update of version 0 succeeds and stores the clone at reference 2, and \<^verbatim>\<open>get(0)\<close>
  then returns reference 1, the view of version 1.
\<close>

theorem update_version_zero_not_read_back:
  "update_config (cfg 0 0 ''y'') zero_and_one
     = (Inr (), manager_of [rec 0 INACTIVE ''z'', rec 1 ACTIVE ''a'', rec 0 INACTIVE ''y'']
                  [(0, 2), (1, 1)] (Some 1))
 \<and> get_config (JNumber (Fin 0))
      (manager_of [rec 0 INACTIVE ''z'', rec 1 ACTIVE ''a'', rec 0 INACTIVE ''y''] [(0, 2), (1, 1)] (Some 1))
     = Inr (Some 1)"
proof -
  have "update_config (cfg 0 0 ''y'') zero_and_one
     = (Inr (), manager_of [rec 0 INACTIVE ''z'', rec 1 ACTIVE ''a'', rec 0 INACTIVE ''y'']
                  [(0, 2), (1, 1)] (Some 1))"
    by code_simp
  then show ?thesis
    by (simp add: manager_of_def get_config_def rec_def)
qed

end
